theory Spec2Isabelle
  imports Complex_Main "HOL-Library.Word" "HOL-Library.Product_Lexorder" "HOL-Library.List_Lexorder"
begin

section \<open>CloudVPN routing (src/cloud/route.cpp)\<close>

text \<open>
  A shallow embedding of the routing subsystem. The static variables of route.cpp are the
  fields of one record that every function takes and returns; the connection table and the
  gate table, which route.cpp only reads, are arguments. A \<open>std::map\<close> is an association
  list in ascending key order, a \<open>std::multimap\<close> the same with equal keys in insertion
  order, a \<open>std::set<int>\<close> an ascending list without duplicates. Every call of
  \<open>write_packet\<close>, \<open>send_packet\<close> and \<open>comm_broadcast_route_update\<close> is an
  entry of the list of actions a function returns. \<open>rand()\<close> is a sequence of naturals
  given from outside, read at a position that each call advances.
\<close>

subsection \<open>Data\<close>

type_synonym u8 = "8 word"
type_synonym u16 = "16 word"
type_synonym u32 = "32 word"
type_synonym u64 = "64 word"

text \<open>
  Modelled from the spec: the class \<open>address\<close> (its header is not among the sources) is
  the pair of an instance and a byte sequence, ordered lexicographically; an empty byte
  sequence is the promiscuous form.
\<close>

type_synonym address = "u32 \<times> u8 list"

definition addr_inst :: "address \<Rightarrow> u32" where
  "addr_inst a = fst a"

definition addr_bytes :: "address \<Rightarrow> u8 list" where
  "addr_bytes a = snd a"

text \<open>
  Modelled from the spec: \<open>route_info\<close> (declared in route.h, not among the sources) has
  an unsigned 32-bit ping and dist and a signed next-hop id, built by
  \<open>route_info (ping, dist, id)\<close>. Next-hop ids, connection ids and gate ids are
  unbounded integers here: no claim depends on their width.
\<close>

record route_info =
  ri_ping :: u32
  ri_dist :: u32
  ri_id :: int

text \<open>\<open>connection::remote_route\<close> of comm.h.\<close>

record remote_route =
  rr_ping :: u32
  rr_dist :: u32

text \<open>The states of a connection, \<open>cs_inactive\<close> .. \<open>cs_active\<close> of comm.h.\<close>

definition cs_inactive :: int where "cs_inactive = 0"
definition cs_retry_timeout :: int where "cs_retry_timeout = 1"
definition cs_connecting :: int where "cs_connecting = 2"
definition cs_ssl_connecting :: int where "cs_ssl_connecting = 3"
definition cs_accepting :: int where "cs_accepting = 4"
definition cs_closing :: int where "cs_closing = 5"
definition cs_active :: int where "cs_active = 6"

text \<open>The fields of \<open>connection\<close> that route.cpp reads.\<close>

record connection =
  c_state :: int
  c_ping :: u32
  c_remote_routes :: "(address \<times> remote_route) list"

text \<open>
  Modelled from the spec: a gate (gate.h is not among the sources) has a descriptor
  \<open>fd\<close>, negative when the gate is not ready, an \<open>id\<close>, the sequence \<open>local\<close> of its
  addresses and the set \<open>instances\<close>.
\<close>

record gate =
  g_fd :: int
  g_id :: int
  g_local :: "address list"
  g_instances :: "address list"

type_synonym connections = "(int \<times> connection) list"
type_synonym gates = "(int \<times> gate) list"

text \<open>
  Modelled from the spec: the configuration (conf.h is not among the sources).
  \<open>config_get_int\<close> yields the integer of a key that is present, \<open>config_is_true\<close> tells
  whether a key is set to a true value.
\<close>

record config =
  config_get_int :: "string \<Rightarrow> int option"
  config_is_true :: "string \<Rightarrow> bool"

text \<open>The static variables of route.cpp; the table \<open>route\<close> is the field \<open>route_map\<close>.\<close>

record rstate =
  queue_items :: "(u32 \<times> int) list"
  queue_age :: "u32 list"
  queue_max_size :: nat
  multiroute :: "(address \<times> (int \<times> int) list) list"
  multi_ratio :: int
  do_multiroute :: bool
  route_map :: "(address \<times> route_info) list"
  reported_route :: "(address \<times> route_info) list"
  promisc :: "(address \<times> route_info) list"
  route_dirty :: int
  route_report_ping_diff :: int
  route_max_dist :: int
  default_broadcast_ttl :: int
  hop_penalization :: int
  shared_uplink :: bool

text \<open>Their initial values, as the declarations give them.\<close>

definition initial_state :: rstate where
  "initial_state =
     \<lparr>queue_items = [], queue_age = [], queue_max_size = 1024,
      multiroute = [], multi_ratio = 2, do_multiroute = False,
      route_map = [], reported_route = [], promisc = [],
      route_dirty = 0, route_report_ping_diff = 5000, route_max_dist = 64,
      default_broadcast_ttl = 128, hop_penalization = 0, shared_uplink = False\<rparr>"

text \<open>What the code can do that leaves no result.\<close>

datatype error =
  DivisionByZero     \<comment> \<open>\<open>rand() % 0\<close>\<close>
  | EmptyFront       \<comment> \<open>\<open>front()\<close> and \<open>pop()\<close> of an empty queue\<close>
  | SignedOverflow   \<comment> \<open>an \<open>int\<close> product out of range\<close>
  | NoReturn         \<comment> \<open>a loop that repeats in the same state for ever\<close>

subsection \<open>Containers\<close>

text \<open>\<open>m[k] = v\<close> on a \<open>std::map\<close>.\<close>

fun smap_set :: "'k::linorder \<Rightarrow> 'v \<Rightarrow> ('k \<times> 'v) list \<Rightarrow> ('k \<times> 'v) list" where
  "smap_set k v [] = [(k, v)]"
| "smap_set k v ((k', v') # m) =
     (if k < k' then (k, v) # (k', v') # m
      else if k = k' then (k, v) # m
      else (k', v') # smap_set k v m)"

text \<open>\<open>m.erase (k)\<close>.\<close>

fun smap_erase :: "'k \<Rightarrow> ('k \<times> 'v) list \<Rightarrow> ('k \<times> 'v) list" where
  "smap_erase k [] = []"
| "smap_erase k ((k', v') # m) =
     (if k = k' then smap_erase k m else (k', v') # smap_erase k m)"

text \<open>\<open>m.find (k)\<close>, with \<open>None\<close> for \<open>end()\<close>; \<open>m.count (k)\<close> is whether it is \<open>Some\<close>.\<close>

definition smap_find :: "'k \<Rightarrow> ('k \<times> 'v) list \<Rightarrow> 'v option" where
  "smap_find k m = map_of m k"

definition smap_count :: "'k \<Rightarrow> ('k \<times> 'v) list \<Rightarrow> bool" where
  "smap_count k m = (smap_find k m \<noteq> None)"

text \<open>\<open>m.insert (pair (k, v))\<close> on a \<open>std::multimap\<close>: behind the entries of the same key.\<close>

fun mmap_insert :: "'k::linorder \<Rightarrow> 'v \<Rightarrow> ('k \<times> 'v) list \<Rightarrow> ('k \<times> 'v) list" where
  "mmap_insert k v [] = [(k, v)]"
| "mmap_insert k v ((k', v') # m) =
     (if k < k' then (k, v) # (k', v') # m else (k', v') # mmap_insert k v m)"

text \<open>The range from \<open>lower_bound (k)\<close> to \<open>upper_bound (k)\<close>: the entries of key \<open>k\<close>.\<close>

definition mmap_range :: "'k \<Rightarrow> ('k \<times> 'v) list \<Rightarrow> ('k \<times> 'v) list" where
  "mmap_range k m = filter (\<lambda>kv. fst kv = k) m"

text \<open>\<open>s.insert (x)\<close> and \<open>s.erase (x)\<close> on a \<open>std::set<int>\<close>.\<close>

definition set_insert :: "int \<Rightarrow> int list \<Rightarrow> int list" where
  "set_insert x s = (if x \<in> set s then s else insort x s)"

definition set_erase :: "int \<Rightarrow> int list \<Rightarrow> int list" where
  "set_erase x s = filter (\<lambda>y. y \<noteq> x) s"

text \<open>The keys of a \<open>std::map\<close> ascend strictly.\<close>

definition smap_ok :: "('k::linorder \<times> 'v) list \<Rightarrow> bool" where
  "smap_ok m = sorted_wrt (<) (map fst m)"

subsection \<open>The cache of broadcast ids\<close>

text \<open>\<open>size_t\<close> from \<open>int\<close>, 64 bits wide.\<close>

definition size_t_of_int :: "int \<Rightarrow> nat" where
  "size_t_of_int t = nat (t mod 2 ^ 64)"

definition config_int_default :: "config \<Rightarrow> string \<Rightarrow> int \<Rightarrow> int" where
  "config_int_default cfg k d = (case config_get_int cfg k of None \<Rightarrow> d | Some t \<Rightarrow> t)"

definition queue_init :: "config \<Rightarrow> rstate \<Rightarrow> rstate" where
  "queue_init cfg st =
     st\<lparr>queue_max_size := size_t_of_int (config_int_default cfg ''packet_id_cache_size'' 1024)\<rparr>"

text \<open>\<open>queue_items[k]\<close> read after \<open>operator[]\<close> has made a missing entry 0.\<close>

definition queue_items_at :: "u32 \<Rightarrow> (u32 \<times> int) list \<Rightarrow> int" where
  "queue_items_at k items = (case smap_find k items of None \<Rightarrow> 0 | Some c \<Rightarrow> c)"

text \<open>One round of the eviction loop, for the front \<open>k\<close> of the queue.\<close>

definition queue_forget :: "u32 \<Rightarrow> (u32 \<times> int) list \<Rightarrow> (u32 \<times> int) list" where
  "queue_forget k items =
     (let c = queue_items_at k items - 1
      in if c = 0 then smap_erase k items else smap_set k c items)"

text \<open>The loop \<open>while (queue_age.size() >= queue_max_size)\<close> of \<open>queue_add_id\<close>.\<close>

fun queue_evict ::
  "nat \<Rightarrow> (u32 \<times> int) list \<Rightarrow> u32 list \<Rightarrow> error + ((u32 \<times> int) list \<times> u32 list)" where
  "queue_evict mx items [] = (if 0 \<ge> mx then Inl EmptyFront else Inr (items, []))"
| "queue_evict mx items (k # age) =
     (if length (k # age) \<ge> mx then queue_evict mx (queue_forget k items) age
      else Inr (items, k # age))"

definition queue_add_id :: "u32 \<Rightarrow> rstate \<Rightarrow> error + rstate" where
  "queue_add_id pid st =
     (case queue_evict (queue_max_size st) (queue_items st) (queue_age st) of
        Inl e \<Rightarrow> Inl e
      | Inr (items, age) \<Rightarrow>
          Inr (st\<lparr>queue_items :=
                     (if smap_count pid items then smap_set pid (queue_items_at pid items + 1) items
                      else smap_set pid 1 items),
                   queue_age := age @ [pid]\<rparr>))"

definition queue_already_sent :: "u32 \<Rightarrow> rstate \<Rightarrow> bool" where
  "queue_already_sent pid st = smap_count pid (queue_items st)"

subsection \<open>Initialisation\<close>

definition route_init_multi :: "config \<Rightarrow> rstate \<Rightarrow> rstate" where
  "route_init_multi cfg st =
     (if config_is_true cfg ''multipath'' then
        (let r = config_int_default cfg ''multipath_ratio'' 2
         in st\<lparr>do_multiroute := True, multi_ratio := (if r < 2 then 2 else r)\<rparr>)
      else st)"

text \<open>
  \<open>route_init\<close>, statement by statement; \<open>init_random\<close> seeds the generator, which is
  outside the state.
\<close>

definition route_init :: "config \<Rightarrow> rstate \<Rightarrow> rstate" where
  "route_init cfg st0 =
     (let st1 = queue_init cfg st0;
          st2 = st1\<lparr>route_map := [], reported_route := [], route_dirty := 0\<rparr>;
          st3 = route_init_multi cfg st2;
          st4 = st3\<lparr>route_report_ping_diff :=
                      config_int_default cfg ''report_ping_changes_above'' 5000\<rparr>;
          st5 = st4\<lparr>route_max_dist := config_int_default cfg ''route_max_dist'' 64\<rparr>;
          st6 = st5\<lparr>route_max_dist := config_int_default cfg ''route_broadcast_ttl'' 64\<rparr>;
          st7 = st6\<lparr>hop_penalization := config_int_default cfg ''route_hop_penalization'' 0\<rparr>
      in st7\<lparr>shared_uplink := config_is_true cfg ''shared_uplink''\<rparr>)"

definition route_set_dirty :: "rstate \<Rightarrow> rstate" where
  "route_set_dirty st = st\<lparr>route_dirty := route_dirty st + 1\<rparr>"

subsection \<open>What the routing code sends\<close>

text \<open>
  \<open>GateSend g\<close>: \<open>send_packet\<close> of the gate with key \<open>g\<close>. \<open>ConnWrite c id ttl\<close>:
  \<open>write_packet\<close> of the connection with key \<open>c\<close>, with the packet id and the ttl
  handed over. \<open>RouteUpdate rep\<close>: \<open>comm_broadcast_route_update\<close> with the buffer that
  holds ping, dist, instance and address bytes of every entry of \<open>rep\<close>, in this order.
\<close>

datatype action =
  is_GateSend: GateSend int
  | is_ConnWrite: ConnWrite int u32 u16
  | is_RouteUpdate: RouteUpdate "(address \<times> route_info) list"

subsection \<open>The route reporter\<close>

text \<open>The test of \<open>report_route\<close> on an address that both tables have.\<close>

definition route_differs :: "int \<Rightarrow> route_info \<Rightarrow> route_info \<Rightarrow> bool" where
  "route_differs diff r oldr =
     ((word_of_int diff :: u32) <
        (if ri_ping r > ri_ping oldr then ri_ping r - ri_ping oldr
         else ri_ping oldr - ri_ping r)
      \<or> ri_dist r \<noteq> ri_dist oldr)"

definition withdrawn :: route_info where
  "withdrawn = \<lparr>ri_ping = 0, ri_dist = 0, ri_id = 0\<rparr>"

text \<open>The three loops of \<open>report_route\<close> that walk both tables and fill \<open>report\<close>.\<close>

fun report_diff ::
  "int \<Rightarrow> (address \<times> route_info) list \<Rightarrow> (address \<times> route_info) list
     \<Rightarrow> (address \<times> route_info) list" where
  "report_diff diff (r # rs) (oldr # oldrs) =
     (if fst r = fst oldr then
        (if route_differs diff (snd r) (snd oldr) then r # report_diff diff rs oldrs
         else report_diff diff rs oldrs)
      else if fst r < fst oldr then r # report_diff diff rs (oldr # oldrs)
      else (fst oldr, withdrawn) # report_diff diff (r # rs) oldrs)"
| "report_diff diff (r # rs) [] = r # report_diff diff rs []"
| "report_diff diff [] (oldr # oldrs) = (fst oldr, withdrawn) # report_diff diff [] oldrs"
| "report_diff diff [] [] = []"

text \<open>The last loop, as far as it changes \<open>reported_route\<close>.\<close>

fun report_apply ::
  "(address \<times> route_info) list \<Rightarrow> (address \<times> route_info) list
     \<Rightarrow> (address \<times> route_info) list" where
  "report_apply [] reported = reported"
| "report_apply (rep # reps) reported =
     report_apply reps
       (if ri_ping (snd rep) \<noteq> 0 then smap_set (fst rep) (snd rep) reported
        else smap_erase (fst rep) reported)"

definition report_route :: "rstate \<Rightarrow> rstate \<times> action list" where
  "report_route st =
     (let report = report_diff (route_report_ping_diff st) (route_map st) (reported_route st)
      in if report = [] then (st, [])
         else (st\<lparr>reported_route := report_apply report (reported_route st)\<rparr>,
               [RouteUpdate report]))"

subsection \<open>Building the route table\<close>

text \<open>The loop over the local addresses of one gate.\<close>

fun route_update_locals ::
  "gate \<Rightarrow> address list
     \<Rightarrow> (address \<times> route_info) list \<times> (address \<times> route_info) list
     \<Rightarrow> (address \<times> route_info) list \<times> (address \<times> route_info) list" where
  "route_update_locals g [] rp = rp"
| "route_update_locals g (k # ks) rp =
     (let temp = \<lparr>ri_ping = 1, ri_dist = 0, ri_id = - (1 + g_id g)\<rparr>
      in route_update_locals g ks
           (smap_set k temp (fst rp),
            if addr_bytes k = [] then mmap_insert k temp (snd rp) else snd rp))"

text \<open>The loop over the gates.\<close>

fun route_update_gates ::
  "gates \<Rightarrow> (address \<times> route_info) list \<times> (address \<times> route_info) list
     \<Rightarrow> (address \<times> route_info) list \<times> (address \<times> route_info) list" where
  "route_update_gates [] rp = rp"
| "route_update_gates (g # gs) rp =
     route_update_gates gs
       (if g_fd (snd g) < 0 then rp else route_update_locals (snd g) (g_local (snd g)) rp)"

text \<open>\<open>pp\<close>: the ping of the entry in the table, penalised by its distance.\<close>

definition penalized_ping :: "int \<Rightarrow> route_info \<Rightarrow> u64" where
  "penalized_ping hop cur =
     (ucast (ri_ping cur) :: u64)
       * ucast ((100 :: u32) + (word_of_int hop :: u32) * ri_dist cur) div 100"

text \<open>\<open>temp\<close>: the entry that a remote route of connection \<open>i\<close> stands for.\<close>

definition route_candidate :: "int \<Rightarrow> connection \<Rightarrow> remote_route \<Rightarrow> route_info" where
  "route_candidate i c rr =
     \<lparr>ri_ping = 2 + rr_ping rr + c_ping c, ri_dist = 1 + rr_dist rr, ri_id = i\<rparr>"

text \<open>The body of the loop over the remote routes of the connection \<open>c\<close> with key \<open>i\<close>.\<close>

definition route_update_remote ::
  "int \<Rightarrow> int \<Rightarrow> int \<Rightarrow> connection \<Rightarrow> address \<times> remote_route
     \<Rightarrow> (address \<times> route_info) list \<times> (address \<times> route_info) list
     \<Rightarrow> (address \<times> route_info) list \<times> (address \<times> route_info) list" where
  "route_update_remote maxd hop i c j rp =
     (let temp = route_candidate i c (snd j);
          install = (smap_set (fst j) temp (fst rp),
                     if addr_bytes (fst j) = [] then mmap_insert (fst j) temp (snd rp)
                     else snd rp)
      in if 1 + rr_dist (snd j) > (word_of_int maxd :: u32) then rp
         else (case smap_find (fst j) (fst rp) of
                 None \<Rightarrow> install
               | Some cur \<Rightarrow>
                   (let pp = penalized_ping hop cur
                    in if pp < ucast (2 + rr_ping (snd j) + c_ping c) then rp
                       else if pp = ucast (2 + rr_ping (snd j) + c_ping c)
                               \<and> ri_dist cur < 1 + rr_dist (snd j) then rp
                       else install)))"

fun route_update_remotes ::
  "int \<Rightarrow> int \<Rightarrow> int \<Rightarrow> connection \<Rightarrow> (address \<times> remote_route) list
     \<Rightarrow> (address \<times> route_info) list \<times> (address \<times> route_info) list
     \<Rightarrow> (address \<times> route_info) list \<times> (address \<times> route_info) list" where
  "route_update_remotes maxd hop i c [] rp = rp"
| "route_update_remotes maxd hop i c (j # js) rp =
     route_update_remotes maxd hop i c js (route_update_remote maxd hop i c j rp)"

text \<open>The loop over the connections.\<close>

fun route_update_conns ::
  "int \<Rightarrow> int \<Rightarrow> connections
     \<Rightarrow> (address \<times> route_info) list \<times> (address \<times> route_info) list
     \<Rightarrow> (address \<times> route_info) list \<times> (address \<times> route_info) list" where
  "route_update_conns maxd hop [] rp = rp"
| "route_update_conns maxd hop (i # cons) rp =
     route_update_conns maxd hop cons
       (if c_state (snd i) \<noteq> cs_active then rp
        else route_update_remotes maxd hop (fst i) (snd i) (c_remote_routes (snd i)) rp)"

text \<open>\<open>multiroute[a][key] = i\<close>; the key is the unsigned sum read as an \<open>int\<close>.\<close>

definition multiroute_set ::
  "address \<Rightarrow> int \<Rightarrow> int \<Rightarrow> (address \<times> (int \<times> int) list) list
     \<Rightarrow> (address \<times> (int \<times> int) list) list" where
  "multiroute_set a key i mr =
     smap_set a (smap_set key i (case smap_find a mr of None \<Rightarrow> [] | Some inner \<Rightarrow> inner)) mr"

fun route_update_multi_remotes ::
  "int \<Rightarrow> connection \<Rightarrow> (address \<times> remote_route) list
     \<Rightarrow> (address \<times> (int \<times> int) list) list \<Rightarrow> (address \<times> (int \<times> int) list) list" where
  "route_update_multi_remotes i c [] mr = mr"
| "route_update_multi_remotes i c (j # js) mr =
     route_update_multi_remotes i c js
       (multiroute_set (fst j) (sint (c_ping c + rr_ping (snd j) + 2)) i mr)"

fun route_update_multi_conns ::
  "connections \<Rightarrow> (address \<times> (int \<times> int) list) list \<Rightarrow> (address \<times> (int \<times> int) list) list" where
  "route_update_multi_conns [] mr = mr"
| "route_update_multi_conns (i # cons) mr =
     route_update_multi_conns cons
       (route_update_multi_remotes (fst i) (snd i) (c_remote_routes (snd i)) mr)"

definition route_update_multi :: "connections \<Rightarrow> rstate \<Rightarrow> rstate" where
  "route_update_multi cons st = st\<lparr>multiroute := route_update_multi_conns cons []\<rparr>"

definition route_update :: "connections \<Rightarrow> gates \<Rightarrow> rstate \<Rightarrow> rstate \<times> action list" where
  "route_update cons gs st =
     (if route_dirty st = 0 then (st, [])
      else
        (let rp0 = ([], promisc st);
             rp1 = route_update_gates gs rp0;
             rp2 = route_update_conns (route_max_dist st) (hop_penalization st) cons rp1;
             st1 = st\<lparr>route_dirty := 0, route_map := fst rp2, promisc := snd rp2\<rparr>;
             st2 = (if do_multiroute st1 then route_update_multi cons st1 else st1)
         in report_route st2))"

subsection \<open>Scattering over several paths\<close>

text \<open>The range of \<open>int\<close>: a product outside of it has no defined value.\<close>

definition int_range :: "int \<Rightarrow> bool" where
  "int_range x = (- (2 ^ 31) \<le> x \<and> x < 2 ^ 31)"

text \<open>
  The entries that \<open>for (; (j != je) && (j->first < maxping); ++j, ++n)\<close> passes: \<open>n\<close> is
  their number, \<open>j\<close> ends behind them.
\<close>

definition scatter_group :: "int \<Rightarrow> (int \<times> int) list \<Rightarrow> (int \<times> int) list" where
  "scatter_group maxping js = takeWhile (\<lambda>j. fst j < maxping) js"

text \<open>
  The \<open>while\<close> loop of \<open>multiroute_scatter\<close> from the position \<open>j\<close>, the list \<open>js\<close> being
  what lies between \<open>j\<close> and \<open>je\<close>. Each round reads \<open>rand()\<close> once. The result holds
  \<open>Some\<close> next hop for \<open>true\<close> and \<open>None\<close> for \<open>false\<close>, and the position in the random
  sequence. A round with \<open>n = 0\<close> draws \<open>rand() % 1 = 0 = n\<close> and leaves \<open>j\<close> where it
  was, so every later round does the same: \<open>NoReturn\<close>. When \<open>j\<close> has reached \<open>je\<close> the
  group holds all of \<open>js\<close>, so \<open>rand() % n\<close> has \<open>n > 0\<close>.
\<close>

function multiroute_scatter_walk ::
  "int \<Rightarrow> int \<Rightarrow> (nat \<Rightarrow> nat) \<Rightarrow> nat \<Rightarrow> (int \<times> int) list \<Rightarrow> error + (int option \<times> nat)" where
  "multiroute_scatter_walk ratio frm rnd pos js =
     (if js = [] then Inr (None, pos)
      else if \<not> int_range (ratio * fst (hd js)) then Inl SignedOverflow
      else
        (let n = length (scatter_group (ratio * fst (hd js)) js);
             rest = drop n js;
             r = (if rest = [] then rnd pos mod n else rnd pos mod (n + 1))
         in if r \<noteq> n then
              (if snd (js ! r) = frm then multiroute_scatter_walk ratio frm rnd (Suc pos) rest
               else Inr (Some (snd (js ! r)), Suc pos))
            else if n = 0 then Inl NoReturn
            else multiroute_scatter_walk ratio frm rnd (Suc pos) rest))"
  by pat_completeness auto
termination
proof (relation "measure (\<lambda>(ratio, frm, rnd, pos, js). length js)")
  show "wf (measure (\<lambda>(ratio, frm, rnd, pos, js). length js))"
    by simp
next
  fix ratio frm :: int and rnd :: "nat \<Rightarrow> nat" and pos :: nat and js :: "(int \<times> int) list"
    and n :: nat and rest :: "(int \<times> int) list" and r :: nat
  assume js: "js \<noteq> []"
    and n: "n = length (scatter_group (ratio * fst (hd js)) js)"
    and rest: "rest = drop n js"
    and r: "r = (if rest = [] then rnd pos mod n else rnd pos mod (n + 1))"
    and rn: "r \<noteq> n"
  have "n \<noteq> 0"
  proof
    assume "n = 0"
    with js rest r have "r = 0" by simp
    with \<open>n = 0\<close> rn show False by simp
  qed
  with js rest
  show "((ratio, frm, rnd, Suc pos, rest), (ratio, frm, rnd, pos, js))
          \<in> measure (\<lambda>(ratio, frm, rnd, pos, js). length js)"
    by (cases js) auto
next
  fix ratio frm :: int and rnd :: "nat \<Rightarrow> nat" and pos :: nat and js :: "(int \<times> int) list"
    and n :: nat and rest :: "(int \<times> int) list" and r :: nat
  assume "js \<noteq> []" and "rest = drop n js" and "n \<noteq> 0"
  then show "((ratio, frm, rnd, Suc pos, rest), (ratio, frm, rnd, pos, js))
          \<in> measure (\<lambda>(ratio, frm, rnd, pos, js). length js)"
    by (cases js) auto
qed

declare multiroute_scatter_walk.simps [simp del]

definition multiroute_scatter ::
  "rstate \<Rightarrow> address \<Rightarrow> int \<Rightarrow> (nat \<Rightarrow> nat) \<Rightarrow> nat \<Rightarrow> error + (int option \<times> nat)" where
  "multiroute_scatter st a frm rnd pos =
     (case smap_find a (multiroute st) of
        None \<Rightarrow> Inr (None, pos)
      | Some js \<Rightarrow> multiroute_scatter_walk (multi_ratio st) frm rnd pos js)"

subsection \<open>Forwarding a packet\<close>

definition send_packet_to_id ::
  "connections \<Rightarrow> gates \<Rightarrow> int \<Rightarrow> u32 \<Rightarrow> u16 \<Rightarrow> action list" where
  "send_packet_to_id cons gs to pid ttl =
     (if to < 0 then
        (case smap_find (- (to + 1)) gs of None \<Rightarrow> [] | Some g \<Rightarrow> [GateSend (- (to + 1))])
      else if ttl \<noteq> 0 then
        (case smap_find to cons of None \<Rightarrow> [] | Some c \<Rightarrow> [ConnWrite to pid (ttl - 1)])
      else [])"

text \<open>
  \<open>random_select\<close> on the range that holds the elements \<open>xs\<close>, with \<open>v\<close> the value of
  \<open>rand()\<close>: the first loop counts \<open>n\<close>, the second one steps \<open>rand() % n\<close> times.
\<close>

definition random_select :: "nat \<Rightarrow> 'a list \<Rightarrow> error + 'a" where
  "random_select v xs =
     (let n = length xs
      in if n = 0 then Inl DivisionByZero else Inr (xs ! (v mod n)))"

text \<open>The part of \<open>route_packet\<close> behind the label \<open>broadcast\<close>: first the gates.\<close>

fun broadcast_gates :: "address \<Rightarrow> int \<Rightarrow> gates \<Rightarrow> action list" where
  "broadcast_gates p frm [] = []"
| "broadcast_gates p frm (j # js) =
     (if fst j = - (frm + 1) then broadcast_gates p frm js
      else if g_fd (snd j) < 0 then broadcast_gates p frm js
      else if p \<notin> set (g_instances (snd j)) then broadcast_gates p frm js
      else GateSend (fst j) # broadcast_gates p frm js)"

text \<open>The last loop of \<open>route_packet\<close>, over all connections.\<close>

fun broadcast_conns :: "u32 \<Rightarrow> u16 \<Rightarrow> int \<Rightarrow> connections \<Rightarrow> action list" where
  "broadcast_conns pid ttl frm [] = []"
| "broadcast_conns pid ttl frm (i # cons) =
     (if fst i = frm then broadcast_conns pid ttl frm cons
      else if c_state (snd i) \<noteq> cs_active then broadcast_conns pid ttl frm cons
      else ConnWrite (fst i) pid (ttl - 1) # broadcast_conns pid ttl frm cons)"

definition route_packet_broadcast ::
  "connections \<Rightarrow> gates \<Rightarrow> bool \<Rightarrow> nat \<Rightarrow> u32 \<Rightarrow> u16 \<Rightarrow> address \<Rightarrow> int \<Rightarrow> error + action list" where
  "route_packet_broadcast cons gs shared v pid ttl p frm =
     (if ttl = 0 then Inr (broadcast_gates p frm gs)
      else if shared then
        (case random_select v cons of
           Inl e \<Rightarrow> Inl e
         | Inr i \<Rightarrow> Inr (broadcast_gates p frm gs @ [ConnWrite (fst i) pid (ttl - 1)]))
      else Inr (broadcast_gates p frm gs @ broadcast_conns pid ttl frm cons))"

text \<open>
  The probable destination: \<open>sendlist\<close> after the block \<open>if (do_multiroute) ... else ...\<close>,
  and the position in the random sequence.
\<close>

definition route_packet_dest ::
  "rstate \<Rightarrow> address \<Rightarrow> int \<Rightarrow> (nat \<Rightarrow> nat) \<Rightarrow> error + (int list \<times> nat)" where
  "route_packet_dest st a frm rnd =
     (if do_multiroute st then
        (case multiroute_scatter st a frm rnd 0 of
           Inl e \<Rightarrow> Inl e
         | Inr res \<Rightarrow> Inr (case fst res of None \<Rightarrow> [] | Some t \<Rightarrow> set_insert t [], snd res))
      else
        (case smap_find a (route_map st) of
           None \<Rightarrow> Inr ([], 0)
         | Some dest \<Rightarrow> Inr (set_insert (ri_id dest) [], 0)))"

text \<open>The loop that feeds the promiscs of the range into \<open>sendlist\<close>.\<close>

fun sendlist_promiscs :: "bool \<Rightarrow> (address \<times> route_info) list \<Rightarrow> int list \<Rightarrow> int list" where
  "sendlist_promiscs shared [] sendlist = sendlist"
| "sendlist_promiscs shared (i # is) sendlist =
     sendlist_promiscs shared is
       (if \<not> shared \<or> ri_id (snd i) < 0 then set_insert (ri_id (snd i)) sendlist
        else sendlist)"

text \<open>The loop that sends to all destinations of \<open>sendlist\<close>.\<close>

fun send_all :: "connections \<Rightarrow> gates \<Rightarrow> u32 \<Rightarrow> u16 \<Rightarrow> int list \<Rightarrow> action list" where
  "send_all cons gs pid ttl [] = []"
| "send_all cons gs pid ttl (k # ks) =
     (if k < 0 \<or> ttl > 0 then send_packet_to_id cons gs k pid ttl else [])
       @ send_all cons gs pid ttl ks"

text \<open>
  The unicast part of \<open>route_packet\<close>, between \<open>if (!a.is_broadcast() )\<close> and the label
  \<open>broadcast\<close>, for the destination \<open>a\<close> and the key \<open>p\<close> of the promiscs; the jump
  \<open>goto broadcast\<close> is the call of \<open>route_packet_broadcast\<close>.
\<close>

definition route_packet_unicast ::
  "connections \<Rightarrow> gates \<Rightarrow> (nat \<Rightarrow> nat) \<Rightarrow> rstate \<Rightarrow> u32 \<Rightarrow> u16 \<Rightarrow> address \<Rightarrow> address \<Rightarrow> int
     \<Rightarrow> error + action list" where
  "route_packet_unicast cons gs rnd st pid ttl a p frm =
     (case route_packet_dest st a frm rnd of
        Inl e \<Rightarrow> Inl e
      | Inr dest \<Rightarrow>
          (let i = mmap_range p (promisc st)
           in if i = [] \<and> fst dest = [] then
                route_packet_broadcast cons gs (shared_uplink st) (rnd (snd dest)) pid ttl p frm
              else
                (case (if shared_uplink st then
                         (case random_select (rnd (snd dest)) i of
                            Inl e \<Rightarrow> Inl e
                          | Inr sel \<Rightarrow> Inr (set_insert (ri_id (snd sel)) (fst dest)))
                       else Inr (fst dest)) of
                   Inl e \<Rightarrow> Inl e
                 | Inr sendlist \<Rightarrow>
                     Inr (send_all cons gs pid ttl
                            (set_erase frm
                               (sendlist_promiscs (shared_uplink st) i sendlist))))))"

text \<open>
  \<open>route_packet\<close> from the declaration of the addresses \<open>a\<close> and \<open>p\<close> on, in the state
  that \<open>route_update\<close> left. The test \<open>is_broadcast\<close> of the class \<open>address\<close> is an
  argument. The destination address is made of \<open>ds\<close> bytes of \<open>buf\<close> from offset \<open>dof\<close>.
\<close>

definition route_packet_forward ::
  "(address \<Rightarrow> bool) \<Rightarrow> connections \<Rightarrow> gates \<Rightarrow> (nat \<Rightarrow> nat) \<Rightarrow> rstate
     \<Rightarrow> u32 \<Rightarrow> u16 \<Rightarrow> u32 \<Rightarrow> u16 \<Rightarrow> u16 \<Rightarrow> u8 list \<Rightarrow> int \<Rightarrow> error + action list" where
  "route_packet_forward is_broadcast cons gs rnd st pid ttl inst dof ds buf frm =
     (let a = (inst, take (unat ds) (drop (unat dof) buf));
          p = (inst, [])
      in if \<not> is_broadcast a then route_packet_unicast cons gs rnd st pid ttl a p frm
         else route_packet_broadcast cons gs (shared_uplink st) (rnd 0) pid ttl p frm)"

text \<open>
  \<open>route_packet\<close>. The connections, the gates and the random sequence are arguments. The
  result is the new state and what was sent, the report of \<open>route_update\<close> first.
\<close>

definition route_packet ::
  "(address \<Rightarrow> bool) \<Rightarrow> connections \<Rightarrow> gates \<Rightarrow> (nat \<Rightarrow> nat) \<Rightarrow> rstate
     \<Rightarrow> u32 \<Rightarrow> u16 \<Rightarrow> u32 \<Rightarrow> u16 \<Rightarrow> u16 \<Rightarrow> u16 \<Rightarrow> u16 \<Rightarrow> u16 \<Rightarrow> u8 list \<Rightarrow> int
     \<Rightarrow> error + (rstate \<times> action list)" where
  "route_packet is_broadcast cons gs rnd st pid ttl inst dof ds sof ss s buf frm =
     (if unat s < unat dof + unat ds then Inr (st, [])
      else if ds = 0 then Inr (st, [])
      else if queue_already_sent pid st then Inr (st, [])
      else
        (case queue_add_id pid st of
           Inl e \<Rightarrow> Inl e
         | Inr st1 \<Rightarrow>
             (case route_packet_forward is_broadcast cons gs rnd
                     (fst (route_update cons gs st1)) pid ttl inst dof ds buf frm of
                Inl e \<Rightarrow> Inl e
              | Inr acts \<Rightarrow>
                  Inr (fst (route_update cons gs st1),
                       snd (route_update cons gs st1) @ acts))))"

subsection \<open>The rule of the route table, as the specification words it and as amended\<close>

text \<open>
  The two tests of the loop body of \<open>route_update\<close> that skip a remote route, negated and
  put into one condition, in the arithmetic of the code: whether the body installs the
  candidate of the remote route \<open>rr\<close> of the connection \<open>c\<close>, \<open>current\<close> being the entry of
  the table for the address, if any.
\<close>

definition wrapped_installs ::
  "int \<Rightarrow> int \<Rightarrow> connection \<Rightarrow> remote_route \<Rightarrow> route_info option \<Rightarrow> bool" where
  "wrapped_installs maxd hop c rr current =
     (1 + rr_dist rr \<le> (word_of_int maxd :: u32) \<and>
      (case current of
         None \<Rightarrow> True
       | Some cur \<Rightarrow>
           (let effective =
                  unat (ri_ping cur) * unat ((100 :: u32) + word_of_int hop * ri_dist cur) div 100;
                ping = unat (2 + rr_ping rr + c_ping c)
            in effective > ping \<or> (effective = ping \<and> ri_dist cur \<ge> 1 + rr_dist rr))))"

text \<open>
  The rule as the claim words it, over the integers and with the exact quotient:
  \<open>effective = current.ping * (100 + hop_penalization * current.dist) / 100\<close>.
\<close>

definition claimed_installs ::
  "int \<Rightarrow> int \<Rightarrow> connection \<Rightarrow> remote_route \<Rightarrow> route_info option \<Rightarrow> bool" where
  "claimed_installs maxd hop c rr current =
     (uint (rr_dist rr) + 1 \<le> maxd \<and>
      (case current of
         None \<Rightarrow> True
       | Some cur \<Rightarrow>
           (let effective =
                  (of_int (uint (ri_ping cur) * (100 + hop * uint (ri_dist cur))) :: rat) / 100;
                ping = of_int (2 + uint (rr_ping rr) + uint (c_ping c))
            in effective > ping
               \<or> (effective = ping \<and> uint (ri_dist cur) \<ge> uint (rr_dist rr) + 1))))"

text \<open>The rule as amended: over the integers, the quotient rounded down.\<close>

definition installs ::
  "int \<Rightarrow> int \<Rightarrow> connection \<Rightarrow> remote_route \<Rightarrow> route_info option \<Rightarrow> bool" where
  "installs maxd hop c rr current =
     (uint (rr_dist rr) + 1 \<le> maxd \<and>
      (case current of
         None \<Rightarrow> True
       | Some cur \<Rightarrow>
           (let effective = uint (ri_ping cur) * (100 + hop * uint (ri_dist cur)) div 100;
                ping = 2 + uint (rr_ping rr) + uint (c_ping c)
            in effective > ping
               \<or> (effective = ping \<and> uint (ri_dist cur) \<ge> uint (rr_dist rr) + 1))))"

text \<open>The candidate: ping \<open>2 + p + c.ping\<close>, dist \<open>d + 1\<close>, id of the connection.\<close>

definition candidate :: "int \<Rightarrow> connection \<Rightarrow> remote_route \<Rightarrow> route_info" where
  "candidate i c rr =
     \<lparr>ri_ping = word_of_int (2 + uint (rr_ping rr) + uint (c_ping c)),
      ri_dist = word_of_int (uint (rr_dist rr) + 1),
      ri_id = i\<rparr>"

text \<open>
  The remote routes of the Active connections, in the order of the connections and, for
  each of them, of its routes: the key of the connection, the connection, the address and
  the remote route.
\<close>

definition active_remotes :: "connections \<Rightarrow> (int \<times> connection \<times> address \<times> remote_route) list" where
  "active_remotes cons =
     concat (map (\<lambda>ic. if c_state (snd ic) = cs_active
                         then map (\<lambda>j. (fst ic, snd ic, fst j, snd j)) (c_remote_routes (snd ic))
                         else [])
               cons)"

text \<open>The rule applied to one remote route, on the table as a map.\<close>

definition install_step ::
  "int \<Rightarrow> int \<Rightarrow> int \<times> connection \<times> address \<times> remote_route
     \<Rightarrow> (address \<Rightarrow> route_info option) \<Rightarrow> (address \<Rightarrow> route_info option)" where
  "install_step maxd hop x tab =
     (if installs maxd hop (fst (snd x)) (snd (snd (snd x))) (tab (fst (snd (snd x))))
      then tab(fst (snd (snd x)) \<mapsto> candidate (fst x) (fst (snd x)) (snd (snd (snd x))))
      else tab)"

text \<open>
  The values that keep the arithmetic of the code within its types: for a remote route, that
  \<open>d + 1\<close> and \<open>2 + p + c.ping\<close> are below \<open>2^32\<close>; for the settings, that
  \<open>route_max_dist\<close> and \<open>hop_penalization\<close> are not negative and that
  \<open>100 + hop_penalization * route_max_dist\<close> is below \<open>2^32\<close>.
\<close>

definition remote_in_range :: "int \<times> connection \<times> address \<times> remote_route \<Rightarrow> bool" where
  "remote_in_range x =
     (uint (rr_dist (snd (snd (snd x)))) + 1 < 2 ^ 32
      \<and> 2 + uint (rr_ping (snd (snd (snd x)))) + uint (c_ping (fst (snd x))) < 2 ^ 32)"

definition settings_in_range :: "int \<Rightarrow> int \<Rightarrow> bool" where
  "settings_in_range maxd hop =
     (0 \<le> maxd \<and> int_range maxd \<and> 0 \<le> hop \<and> int_range hop \<and> 100 + hop * maxd < 2 ^ 32)"

subsection \<open>The reported table, as the specification words it and as the code leaves it\<close>

text \<open>
  The claim about \<open>report_route\<close> compares addresses, pings and dists of \<open>reported_route\<close>
  with those of the entries of \<open>route\<close> whose ping is not zero.
\<close>

definition nonzero_routes :: "(address \<times> route_info) list \<Rightarrow> (address \<times> route_info) list" where
  "nonzero_routes m = filter (\<lambda>e. ri_ping (snd e) \<noteq> 0) m"

definition ping_dist :: "(address \<times> route_info) list \<Rightarrow> (address \<times> u32 \<times> u32) list" where
  "ping_dist m = map (\<lambda>e. (fst e, ri_ping (snd e), ri_dist (snd e))) m"

text \<open>
  The threshold \<open>route_report_ping_diff\<close> as the unsigned 32-bit number it is compared as:
  itself from 0 up to \<open>2^32 - 1\<close>, and \<open>2^32\<close> more than itself when it is negative.
\<close>

definition unsigned_threshold :: "int \<Rightarrow> nat" where
  "unsigned_threshold diff = nat (diff mod 2 ^ 32)"

text \<open>By how much two pings differ, as a natural number.\<close>

definition ping_gap :: "u32 \<Rightarrow> u32 \<Rightarrow> nat" where
  "ping_gap p q = (if unat q < unat p then unat p - unat q else unat q - unat p)"

text \<open>
  What \<open>reported_route\<close> holds for an address after \<open>report_route\<close>, given what \<open>route\<close>
  holds for it (\<open>new\<close>) and what \<open>reported_route\<close> held (\<open>old\<close>): nothing without an entry
  in \<open>route\<close>; the old entry when there is one of equal dist whose ping differs from the
  new one by at most the threshold; the new entry otherwise, unless its ping is zero.
\<close>

definition reported_after :: "int \<Rightarrow> route_info option \<Rightarrow> route_info option \<Rightarrow> route_info option" where
  "reported_after diff new old =
     (case new of
        None \<Rightarrow> None
      | Some r \<Rightarrow>
          (case old of
             None \<Rightarrow> if ri_ping r \<noteq> 0 then Some r else None
           | Some oldr \<Rightarrow>
               if unsigned_threshold diff < ping_gap (ri_ping r) (ri_ping oldr)
                  \<or> ri_dist r \<noteq> ri_dist oldr
               then (if ri_ping r \<noteq> 0 then Some r else None)
               else Some oldr))"

subsection \<open>Inputs of the examples\<close>

text \<open>A configuration that sets both \<open>route_max_dist\<close> and \<open>route_broadcast_ttl\<close>.\<close>

definition example_config :: config where
  "example_config =
     \<lparr>config_get_int = map_of [(''route_max_dist'', 10), (''route_broadcast_ttl'', 200)],
      config_is_true = (\<lambda>k. False)\<rparr>"

text \<open>A ready gate with key and id 0 that listens to the addresses \<open>local\<close>.\<close>

definition example_gate :: "address list \<Rightarrow> int \<times> gate" where
  "example_gate local =
     (0, \<lparr>g_fd = 3, g_id = 0, g_local = local, g_instances = [(7, [])]\<rparr>)"

text \<open>A connection with the key \<open>i\<close> in the given state that reported the routes \<open>rrs\<close>.\<close>

definition example_conn ::
  "int \<Rightarrow> int \<Rightarrow> (address \<times> remote_route) list \<Rightarrow> int \<times> connection" where
  "example_conn i state rrs = (i, \<lparr>c_state = state, c_ping = 5, c_remote_routes = rrs\<rparr>)"

text \<open>Two Active connections, with the keys 0 and 5.\<close>

definition example_conns :: connections where
  "example_conns = [example_conn 0 cs_active [], example_conn 5 cs_active []]"

text \<open>An \<open>is_broadcast\<close> that answers the same for every address.\<close>

definition every_address :: "bool \<Rightarrow> address \<Rightarrow> bool" where
  "every_address b a = b"

text \<open>A \<open>rand()\<close> that returns the same value at every call.\<close>

definition rand_const :: "nat \<Rightarrow> nat \<Rightarrow> nat" where
  "rand_const v i = v"

text \<open>What a call of \<open>route_packet\<close> sent, for a call that returns.\<close>

definition sent :: "error + (rstate \<times> action list) \<Rightarrow> error + action list" where
  "sent res = (case res of Inl e \<Rightarrow> Inl e | Inr r \<Rightarrow> Inr (snd r))"

text \<open>A table with the one address \<open>(7, [1])\<close>, at one hop over connection 0.\<close>

definition example_routes :: "u32 \<Rightarrow> (address \<times> route_info) list" where
  "example_routes p = [((7, [1]), \<lparr>ri_ping = p, ri_dist = 1, ri_id = 0\<rparr>)]"

text \<open>
  Two Active connections with the keys 0 and 1 and the ping 5, each with one remote route
  for that address: the first one with ping 11 and dist 2, the second one as given.
\<close>

definition example_relays :: "u32 \<Rightarrow> u32 \<Rightarrow> connections" where
  "example_relays p d =
     [example_conn 0 cs_active [((7, [1]), \<lparr>rr_ping = 11, rr_dist = 2\<rparr>)],
      example_conn 1 cs_active [((7, [1]), \<lparr>rr_ping = p, rr_dist = d\<rparr>)]]"


text \<open>
  A state whose \<open>route\<close> holds that address with the ping \<open>p\<close>, whose \<open>reported_route\<close>
  holds it with the ping \<open>q\<close>, and whose threshold of reported ping changes is \<open>diff\<close>.
\<close>

definition example_report :: "u32 \<Rightarrow> u32 \<Rightarrow> int \<Rightarrow> rstate" where
  "example_report p q diff =
     initial_state\<lparr>route_map := example_routes p, reported_route := example_routes q,
                     route_report_ping_diff := diff\<rparr>"

section \<open>Properties\<close>

subsection \<open>Initialisation\<close>

lemma route_init_max_dist:
  "route_max_dist (route_init cfg st) = config_int_default cfg ''route_broadcast_ttl'' 64"
  by (simp add: route_init_def route_init_multi_def queue_init_def Let_def)

text \<open>
  C1. The claim: after \<open>route_init\<close>, \<open>route_max_dist\<close> is the value of the
  configuration key \<open>route_max_dist\<close>, whatever \<open>route_broadcast_ttl\<close> is. The code
  assigns \<open>route_max_dist\<close> a second time, from \<open>route_broadcast_ttl\<close>: with the keys set
  to 10 and 200, \<open>route_max_dist\<close> ends as 200.
\<close>

theorem route_init_max_dist_is_broadcast_ttl:
  "config_get_int example_config ''route_max_dist'' = Some 10
   \<and> route_max_dist (route_init example_config initial_state) = 200"
  by (simp add: route_init_max_dist config_int_default_def example_config_def)

subsection \<open>Rebuilding the table\<close>

lemma report_route_dirty: "route_dirty (fst (report_route st)) = route_dirty st"
  by (simp add: report_route_def Let_def)

lemma route_update_clean: "route_dirty (fst (route_update cons gs st)) = 0"
  by (simp add: route_update_def Let_def report_route_dirty route_update_multi_def)

text \<open>
  C9. A call of \<open>route_update\<close> that follows another one, with no \<open>route_set_dirty\<close> in
  between, returns the state as it was (so \<open>route\<close>, \<open>reported_route\<close>, \<open>promisc\<close> and
  \<open>multiroute\<close> stay) and sends no route update, whatever the connections and gates are
  by then.
\<close>

theorem route_update_twice:
  "route_update cons' gs' (fst (route_update cons gs st))
     = (fst (route_update cons gs st), [])"
  using route_update_clean [of cons gs st] by (simp add: route_update_def)

text \<open>
  C3. The claim: \<open>promisc\<close> has one entry for each promiscuous listener, and a rebuild
  leaves neither a duplicate nor a stale entry. \<open>route_update\<close> clears \<open>route\<close> but
  not \<open>promisc\<close>, into which it only inserts. With one ready gate that listens to the
  promiscuous address of instance 7, a second rebuild leaves two entries for this listener;
  and when the gate is gone at the second rebuild, its entry is still there.
\<close>

theorem promisc_accumulates:
  "promisc (fst (route_update [] [example_gate [(7, [])]]
      (route_set_dirty (fst (route_update [] [example_gate [(7, [])]]
         (route_set_dirty initial_state))))))
     = [((7, []), \<lparr>ri_ping = 1, ri_dist = 0, ri_id = - 1\<rparr>),
        ((7, []), \<lparr>ri_ping = 1, ri_dist = 0, ri_id = - 1\<rparr>)]
   \<and> promisc (fst (route_update [] []
      (route_set_dirty (fst (route_update [] [example_gate [(7, [])]]
         (route_set_dirty initial_state))))))
     = [((7, []), \<lparr>ri_ping = 1, ri_dist = 0, ri_id = - 1\<rparr>)]"
  by (simp add: route_update_def route_set_dirty_def initial_state_def example_gate_def
      report_route_def Let_def addr_bytes_def withdrawn_def)

subsection \<open>The random choice with a shared uplink\<close>

text \<open>
  C4. The claim: with \<open>shared_uplink\<close> and a positive ttl, a broadcast goes to one of the
  Active connections, never to one in another state and never to \<open>from\<close>.
  \<open>route_packet\<close> hands all of \<open>comm_connections()\<close> to \<open>random_select\<close>, and tests
  neither the state nor \<open>from\<close>, as the loop without \<open>shared_uplink\<close> does. A
  broadcast of the local gate 0 is written to the only connection, which is Inactive; a
  broadcast that the only connection sent goes to the gate and back to that connection.
\<close>

theorem shared_uplink_selects_any_connection:
  "sent (route_packet (every_address True) [example_conn 0 cs_inactive []] [example_gate []]
      (rand_const 0) (initial_state\<lparr>shared_uplink := True\<rparr>) 1 1 7 0 1 0 0 1 [255] (- 1))
     = Inr [ConnWrite 0 1 0]
   \<and> sent (route_packet (every_address True) [example_conn 0 cs_active []] [example_gate []]
      (rand_const 0) (initial_state\<lparr>shared_uplink := True\<rparr>) 1 1 7 0 1 0 0 1 [255] 0)
     = Inr [GateSend 0, ConnWrite 0 1 0]"
  by (simp add: route_packet_def sent_def queue_already_sent_def smap_count_def smap_find_def
      initial_state_def queue_add_id_def route_update_def every_address_def mmap_range_def
      route_packet_broadcast_def random_select_def example_conn_def rand_const_def
      route_packet_forward_def example_gate_def)

text \<open>
  C10. The claim: \<open>random_select\<close> is only called on a range that is not empty.
  On the unicast path the jump to \<open>broadcast\<close> is taken when the range of promiscs is empty
  and \<open>sendlist\<close> is empty too; with a destination in \<open>sendlist\<close> and no promisc,
  \<open>shared_uplink\<close> calls \<open>random_select\<close> on the empty range. On the broadcast path
  nothing tests that there is a connection. In both cases \<open>rand() % n\<close> has \<open>n = 0\<close>:
  a packet from connection 0 for the address of a local gate, no promisc known; and a
  broadcast of the local gate 0 with a positive ttl while there is no connection.
\<close>

theorem random_select_on_empty_range:
  "route_packet (every_address False) [example_conn 0 cs_active []] [example_gate [(7, [1])]]
      (rand_const 0) (initial_state\<lparr>shared_uplink := True, route_dirty := 1\<rparr>)
      1 1 7 0 1 0 0 1 [1] 0
     = Inl DivisionByZero
   \<and> route_packet (every_address True) [] [example_gate []] (rand_const 0)
      (initial_state\<lparr>shared_uplink := True\<rparr>) 1 1 7 0 1 0 0 1 [255] (- 1)
     = Inl DivisionByZero"
  by (simp add: route_packet_def queue_already_sent_def smap_count_def smap_find_def
      initial_state_def queue_add_id_def route_update_def every_address_def mmap_range_def
      route_packet_broadcast_def random_select_def example_gate_def rand_const_def
      report_route_def Let_def addr_bytes_def withdrawn_def route_packet_dest_def set_insert_def
      route_packet_unicast_def route_packet_forward_def example_conn_def cs_active_def)

subsection \<open>Association lists as maps\<close>

lemma map_of_smap_set: "map_of (smap_set k v m) = (map_of m)(k \<mapsto> v)"
  by (induction m) (auto simp: fun_eq_iff)

lemma map_of_smap_erase: "map_of (smap_erase k m) = (map_of m)(k := None)"
  by (induction m) (auto simp: fun_eq_iff)

subsection \<open>Forwarding: the early returns and the rest\<close>

lemma sent_Inr: "sent res = Inr acts \<Longrightarrow> \<exists>st. res = Inr (st, acts)"
  by (cases res) (auto simp: sent_def)

lemma route_packet_early:
  assumes "unat s < unat dof + unat ds \<or> ds = 0 \<or> queue_already_sent pid st"
  shows "route_packet isb cons gs rnd st pid ttl inst dof ds sof ss s buf frm = Inr (st, [])"
  using assms unfolding route_packet_def by presburger

lemma route_packet_late:
  assumes "\<not> (unat s < unat dof + unat ds \<or> ds = 0 \<or> queue_already_sent pid st)"
  shows "route_packet isb cons gs rnd st pid ttl inst dof ds sof ss s buf frm
     = (case queue_add_id pid st of
           Inl e \<Rightarrow> Inl e
         | Inr st1 \<Rightarrow>
             (case route_packet_forward isb cons gs rnd
                     (fst (route_update cons gs st1)) pid ttl inst dof ds buf frm of
                Inl e \<Rightarrow> Inl e
              | Inr acts \<Rightarrow>
                  Inr (fst (route_update cons gs st1),
                       snd (route_update cons gs st1) @ acts)))"
  using assms unfolding route_packet_def by presburger

subsection \<open>Duplicates\<close>

lemma queue_add_id_sent: "queue_add_id pid st = Inr st1 \<Longrightarrow> queue_already_sent pid st1"
  by (auto simp: queue_add_id_def queue_already_sent_def smap_count_def smap_find_def
      map_of_smap_set split: sum.splits)

lemma report_route_queue: "queue_items (fst (report_route st)) = queue_items st"
  by (simp add: report_route_def Let_def)

lemma route_update_queue: "queue_items (fst (route_update cons gs st)) = queue_items st"
  by (simp add: route_update_def Let_def report_route_queue route_update_multi_def)

lemma route_packet_seen:
  assumes "\<not> unat s < unat dof + unat ds" and "ds \<noteq> 0"
    and "route_packet isb cons gs rnd st pid ttl inst dof ds sof ss s buf frm = Inr (st1, acts)"
  shows "queue_already_sent pid st1"
proof (cases "queue_already_sent pid st")
  case True
  with assms(3) route_packet_early [of s dof ds pid st isb cons gs rnd ttl inst sof ss buf frm]
  show ?thesis by simp
next
  case False
  with assms(1,2) have late: "\<not> (unat s < unat dof + unat ds \<or> ds = 0 \<or> queue_already_sent pid st)"
    by simp
  from assms(3) route_packet_late [OF late, of isb cons gs rnd ttl inst sof ss buf frm]
  obtain st' where "queue_add_id pid st = Inr st'" and "st1 = fst (route_update cons gs st')"
    by (auto split: sum.splits)
  then show ?thesis
    using queue_add_id_sent [of pid st st']
    by (simp add: queue_already_sent_def route_update_queue)
qed

text \<open>
  C7. After a valid call of \<open>route_packet\<close> with the packet id \<open>pid\<close> has returned, the
  id is in the cache; a call with the same id that follows at once returns without sending
  to a gate or a connection and leaves the state as it is; and so does a call in any later
  state whose cache still holds the id, whatever its other arguments are.
\<close>

theorem route_packet_duplicate:
  assumes "\<not> unat s < unat dof + unat ds" and "ds \<noteq> 0"
    and "route_packet isb cons gs rnd st pid ttl inst dof ds sof ss s buf frm = Inr (st1, acts)"
  shows "queue_already_sent pid st1
    \<and> route_packet isb' cons' gs' rnd' st1 pid ttl' inst' dof' ds' sof' ss' s' buf' frm'
        = Inr (st1, [])
    \<and> (\<forall>st2. queue_already_sent pid st2 \<longrightarrow>
          route_packet isb' cons' gs' rnd' st2 pid ttl' inst' dof' ds' sof' ss' s' buf' frm'
            = Inr (st2, []))"
  using route_packet_seen [OF assms] by (simp add: route_packet_early)

theorem route_packet_duplicate_witness:
  "\<not> unat (1 :: u16) < unat (0 :: u16) + unat (1 :: u16) \<and> (1 :: u16) \<noteq> 0
   \<and> sent (route_packet (every_address True) example_conns [example_gate []]
          (rand_const 0) initial_state 9 1 7 0 1 0 0 1 [255] 5)
      = Inr [GateSend 0, ConnWrite 0 9 0]
   \<and> queue_already_sent 9
        (fst (projr (route_packet (every_address True) example_conns [example_gate []]
          (rand_const 0) initial_state 9 1 7 0 1 0 0 1 [255] 5)))
   \<and> sent (route_packet (every_address True) example_conns [example_gate []] (rand_const 0)
        (fst (projr (route_packet (every_address True) example_conns [example_gate []]
          (rand_const 0) initial_state 9 1 7 0 1 0 0 1 [255] 5)))
        9 1 7 0 1 0 0 1 [255] 5)
      = Inr []"
proof -
  have v: "\<not> unat (1 :: u16) < unat (0 :: u16) + unat (1 :: u16)" "(1 :: u16) \<noteq> 0"
    by simp_all
  have first: "sent (route_packet (every_address True) example_conns [example_gate []]
          (rand_const 0) initial_state 9 1 7 0 1 0 0 1 [255] 5)
      = Inr [GateSend 0, ConnWrite 0 9 0]"
    by (simp add: route_packet_def sent_def queue_already_sent_def smap_count_def smap_find_def
      initial_state_def queue_add_id_def route_update_def every_address_def mmap_range_def
      route_packet_broadcast_def random_select_def example_conn_def rand_const_def
      route_packet_forward_def example_gate_def cs_active_def example_conns_def)
  from sent_Inr [OF first] obtain st1 where
    r: "route_packet (every_address True) example_conns [example_gate []]
          (rand_const 0) initial_state 9 1 7 0 1 0 0 1 [255] 5
         = Inr (st1, [GateSend 0, ConnWrite 0 9 0])" ..
  from route_packet_duplicate [OF v r, of "every_address True" example_conns
      "[example_gate []]" "rand_const 0" 1 7 0 1 0 0 1 "[255]" 5]
  show ?thesis using v first r by (simp add: sent_def)
qed

subsection \<open>A packet with \<open>ttl = 0\<close>\<close>

lemma report_route_acts: "filter (\<lambda>a. \<not> is_ConnWrite a) (snd (report_route st)) = snd (report_route st)"
  by (cases "report_diff (route_report_ping_diff st) (route_map st) (reported_route st) = []")
     (simp_all add: report_route_def Let_def)

lemma route_update_acts:
  "filter (\<lambda>a. \<not> is_ConnWrite a) (snd (route_update cons gs st)) = snd (route_update cons gs st)"
  by (cases "route_dirty st = 0") (simp_all add: route_update_def Let_def report_route_acts)

lemma broadcast_gates_acts:
  "filter (\<lambda>a. \<not> is_ConnWrite a) (broadcast_gates p frm gs) = broadcast_gates p frm gs"
  by (induction gs) auto

lemma broadcast_conns_acts:
  "filter (\<lambda>a. \<not> is_ConnWrite a) (broadcast_conns pid ttl frm cons) = []"
  by (induction cons) auto

lemma route_packet_broadcast_ttl0:
  assumes "route_packet_broadcast cons gs shared v pid ttl p frm = Inr acts"
  shows "route_packet_broadcast cons gs shared v pid 0 p frm
           = Inr (filter (\<lambda>a. \<not> is_ConnWrite a) acts)"
proof -
  have zero: "route_packet_broadcast cons gs shared v pid 0 p frm = Inr (broadcast_gates p frm gs)"
    by (simp add: route_packet_broadcast_def)
  have "filter (\<lambda>a. \<not> is_ConnWrite a) acts = broadcast_gates p frm gs"
  proof (cases "ttl = 0")
    case True
    with assms have "acts = broadcast_gates p frm gs"
      by (simp add: route_packet_broadcast_def)
    then show ?thesis by (simp add: broadcast_gates_acts)
  next
    case False
    show ?thesis
    proof (cases shared)
      case True
      with False assms obtain i :: "int \<times> connection" where "acts = broadcast_gates p frm gs @ [ConnWrite (fst i) pid (ttl - 1)]"
        by (auto simp: route_packet_broadcast_def split: sum.splits)
      then show ?thesis by (simp add: broadcast_gates_acts)
    next
      case nonshared: False
      with False assms have "acts = broadcast_gates p frm gs @ broadcast_conns pid ttl frm cons"
        by (simp add: route_packet_broadcast_def)
      then show ?thesis by (simp add: broadcast_gates_acts broadcast_conns_acts)
    qed
  qed
  with zero show ?thesis by simp
qed

lemma send_packet_to_id_ttl0:
  "(if k < 0 then send_packet_to_id cons gs k pid 0 else [])
     = filter (\<lambda>a. \<not> is_ConnWrite a)
         (if k < 0 \<or> ttl > 0 then send_packet_to_id cons gs k pid ttl else [])"
proof (cases "k < 0")
  case True
  then show ?thesis
    by (cases "smap_find (- (k + 1)) gs") (simp_all add: send_packet_to_id_def)
next
  case False
  then show ?thesis
    by (cases "smap_find k cons"; cases "ttl = 0") (simp_all add: send_packet_to_id_def)
qed

lemma send_all_ttl0:
  "send_all cons gs pid 0 ks = filter (\<lambda>a. \<not> is_ConnWrite a) (send_all cons gs pid ttl ks)"
proof (induction ks)
  case Nil
  show ?case by simp
next
  case (Cons k ks)
  have "send_all cons gs pid 0 (k # ks)
      = (if k < 0 then send_packet_to_id cons gs k pid 0 else []) @ send_all cons gs pid 0 ks"
    by simp
  also have "\<dots> = filter (\<lambda>a. \<not> is_ConnWrite a)
         (if k < 0 \<or> ttl > 0 then send_packet_to_id cons gs k pid ttl else [])
       @ filter (\<lambda>a. \<not> is_ConnWrite a) (send_all cons gs pid ttl ks)"
    by (simp only: send_packet_to_id_ttl0 [of k cons gs pid ttl] Cons.IH)
  also have "\<dots> = filter (\<lambda>a. \<not> is_ConnWrite a) (send_all cons gs pid ttl (k # ks))"
    by (simp only: send_all.simps filter_append)
  finally show ?case .
qed

lemma route_packet_unicast_ttl0:
  assumes "route_packet_unicast cons gs rnd st pid ttl a p frm = Inr acts"
  shows "route_packet_unicast cons gs rnd st pid 0 a p frm
           = Inr (filter (\<lambda>a. \<not> is_ConnWrite a) acts)"
proof (cases "route_packet_dest st a frm rnd")
  case (Inl e)
  with assms show ?thesis by (simp add: route_packet_unicast_def)
next
  case (Inr dest)
  show ?thesis
  proof (cases "mmap_range p (promisc st) = [] \<and> fst dest = []")
    case True
    with assms Inr show ?thesis
      by (auto simp: route_packet_unicast_def Let_def dest: route_packet_broadcast_ttl0)
  next
    case False
    with assms Inr show ?thesis
      unfolding route_packet_unicast_def Let_def
      by (auto simp: send_all_ttl0 [of _ _ _ _ ttl] split: sum.splits if_splits)
  qed
qed


lemma route_packet_forward_ttl0:
  assumes "route_packet_forward isb cons gs rnd st pid ttl inst dof ds buf frm = Inr acts"
  shows "route_packet_forward isb cons gs rnd st pid 0 inst dof ds buf frm
           = Inr (filter (\<lambda>a. \<not> is_ConnWrite a) acts)"
proof (cases "isb (inst, take (unat ds) (drop (unat dof) buf))")
  case True
  with assms show ?thesis
    by (simp add: route_packet_forward_def route_packet_broadcast_ttl0)
next
  case False
  with assms show ?thesis
    by (simp add: route_packet_forward_def route_packet_unicast_ttl0)
qed

lemma route_packet_ttl0:
  assumes "route_packet isb cons gs rnd st pid ttl inst dof ds sof ss s buf frm = Inr (st1, acts)"
  shows "route_packet isb cons gs rnd st pid 0 inst dof ds sof ss s buf frm
           = Inr (st1, filter (\<lambda>a. \<not> is_ConnWrite a) acts)"
proof (cases "unat s < unat dof + unat ds \<or> ds = 0 \<or> queue_already_sent pid st")
  case True
  from assms route_packet_early [OF True, of isb cons gs rnd ttl inst sof ss buf frm]
  have "st1 = st" "acts = []" by simp_all
  with route_packet_early [OF True, of isb cons gs rnd 0 inst sof ss buf frm]
  show ?thesis by simp
next
  case False
  note late = route_packet_late [OF False, of isb cons gs rnd _ inst sof ss buf frm]
  show ?thesis
  proof (cases "queue_add_id pid st")
    case (Inl e)
    with assms late [of ttl] show ?thesis by simp
  next
    case (Inr st')
    show ?thesis
    proof (cases "route_packet_forward isb cons gs rnd
                     (fst (route_update cons gs st')) pid ttl inst dof ds buf frm")
      case fail: (Inl e)
      with assms late [of ttl] Inr show ?thesis by simp
    next
      case ok: (Inr fwd)
      with assms late [of ttl] Inr
      have res: "st1 = fst (route_update cons gs st')"
        "acts = snd (route_update cons gs st') @ fwd" by simp_all
      from route_packet_forward_ttl0 [OF ok] late [of 0] Inr res
      show ?thesis by (simp add: route_update_acts)
    qed
  qed
qed

text \<open>
  A call with \<open>ttl = 0\<close> that returns has called \<open>write_packet\<close> of no connection, and
  what it sent to the gates is what the same call with any other ttl sends to them, if
  that call returns.
\<close>

lemma route_packet_ttl_zero_returning:
  assumes "route_packet isb cons gs rnd st pid 0 inst dof ds sof ss s buf frm = Inr (st1, acts)"
  shows "(\<forall>a \<in> set acts. \<not> is_ConnWrite a)
    \<and> (\<forall>ttl st2 acts2.
          route_packet isb cons gs rnd st pid ttl inst dof ds sof ss s buf frm = Inr (st2, acts2)
          \<longrightarrow> st2 = st1 \<and> filter is_GateSend acts2 = filter is_GateSend acts)"
proof (intro conjI allI impI)
  have "acts = filter (\<lambda>a. \<not> is_ConnWrite a) acts"
    using route_packet_ttl0 [OF assms] assms by simp
  then have "set acts = {a \<in> set acts. \<not> is_ConnWrite a}"
    by (metis set_filter)
  then show "\<forall>a \<in> set acts. \<not> is_ConnWrite a"
    by blast
next
  fix ttl st2 acts2
  assume r: "route_packet isb cons gs rnd st pid ttl inst dof ds sof ss s buf frm = Inr (st2, acts2)"
  from route_packet_ttl0 [OF r] assms
  have eq: "st2 = st1" "acts = filter (\<lambda>a. \<not> is_ConnWrite a) acts2" by simp_all
  show "st2 = st1" by (rule eq(1))
  have "filter is_GateSend (filter (\<lambda>a. \<not> is_ConnWrite a) acts2) = filter is_GateSend acts2"
    by (induction acts2) (auto simp: action.disc)
  with eq(2) show "filter is_GateSend acts2 = filter is_GateSend acts" by simp
qed


text \<open>
  C8. The claim: every call of \<open>route_packet\<close> with \<open>ttl = 0\<close> still delivers to the
  local gates. A packet with \<open>ttl = 0\<close> from connection 0 for the address of the local
  gate 0, with \<open>shared_uplink\<close> set and no promisc known, has the gate in \<open>sendlist\<close>;
  the code then calls \<open>random_select\<close> on the empty range of promiscs and divides by
  zero before the loop that sends: the gate gets nothing. Without \<open>shared_uplink\<close> the
  same call reports the new route and delivers to the gate.
\<close>

theorem ttl_zero_not_delivered:
  "route_packet (every_address False) [example_conn 0 cs_active []] [example_gate [(7, [1])]]
      (rand_const 0) (initial_state\<lparr>shared_uplink := True, route_dirty := 1\<rparr>)
      1 0 7 0 1 0 0 1 [1] 0
     = Inl DivisionByZero
   \<and> sent (route_packet (every_address False) [example_conn 0 cs_active []]
        [example_gate [(7, [1])]] (rand_const 0) (initial_state\<lparr>route_dirty := 1\<rparr>)
        1 0 7 0 1 0 0 1 [1] 0)
     = Inr [RouteUpdate [((7, [1]), \<lparr>ri_ping = 1, ri_dist = 0, ri_id = - 1\<rparr>)], GateSend 0]"
  by (simp add: route_packet_def queue_already_sent_def smap_count_def smap_find_def
      initial_state_def queue_add_id_def route_update_def every_address_def mmap_range_def
      random_select_def example_gate_def rand_const_def sent_def send_packet_to_id_def
      report_route_def Let_def addr_bytes_def withdrawn_def route_packet_dest_def set_insert_def
      set_erase_def route_packet_unicast_def route_packet_forward_def example_conn_def
      cs_active_def)

subsection \<open>Installing remote routes\<close>

lemma unat_ucast_u32_u64: "unat (ucast (w :: u32) :: u64) = unat w"
proof -
  have "unat w < 2 ^ 32" using unsigned_less [of w, where 'a = nat] by simp
  then have "unat w < 2 ^ 64" by simp
  then show ?thesis by (simp add: unsigned_ucast_eq take_bit_nat_eq_self)
qed

lemma penalized_ping_unat:
  "unat (penalized_ping hop cur)
     = unat (ri_ping cur) * unat ((100 :: u32) + word_of_int hop * ri_dist cur) div 100"
proof -
  let ?f = "(100 :: u32) + word_of_int hop * ri_dist cur"
  have a: "unat (ri_ping cur) < 2 ^ 32" using unsigned_less [of "ri_ping cur", where 'a = nat] by simp
  have b: "unat ?f < 2 ^ 32" using unsigned_less [of ?f, where 'a = nat] by simp
  have "unat (ri_ping cur) * unat ?f < 2 ^ 32 * 2 ^ 32"
    using a b by (rule mult_strict_mono') simp_all
  then have lt: "unat (ucast (ri_ping cur) :: u64) * unat (ucast ?f :: u64) < 2 ^ LENGTH(64)"
    by (simp add: unat_ucast_u32_u64)
  have "unat ((ucast (ri_ping cur) :: u64) * ucast ?f) = unat (ri_ping cur) * unat ?f"
    using lt unfolding unat_mult_lem by (simp add: unat_ucast_u32_u64)
  then show ?thesis
    by (simp add: penalized_ping_def unat_div)
qed

lemma route_update_remote_table:
  "fst (route_update_remote maxd hop i c (a, rr) (rt, pr))
     = (if wrapped_installs maxd hop c rr (smap_find a rt) then smap_set a (route_candidate i c rr) rt
        else rt)"
proof (cases "1 + rr_dist rr > (word_of_int maxd :: u32)")
  case True
  then show ?thesis
    by (simp add: route_update_remote_def wrapped_installs_def Let_def not_le [symmetric])
next
  case False
  then have near: "\<not> (word_of_int maxd :: u32) < 1 + rr_dist rr"
    and near': "1 + rr_dist rr \<le> (word_of_int maxd :: u32)"
    by (simp_all add: not_less)
  show ?thesis
  proof (cases "smap_find a rt")
    case None
    with near near' show ?thesis
      by (simp add: route_update_remote_def wrapped_installs_def Let_def)
  next
    case (Some cur)
    let ?pp = "penalized_ping hop cur"
    let ?cp = "2 + rr_ping rr + c_ping c"
    have lt: "?pp < ucast ?cp \<longleftrightarrow> unat ?pp < unat ?cp"
      by (simp add: word_less_nat_alt unat_ucast_u32_u64)
    have eq: "?pp = ucast ?cp \<longleftrightarrow> unat ?pp = unat ?cp"
      by (simp add: word_unat_eq_iff unat_ucast_u32_u64)
    from near near' Some show ?thesis
      unfolding route_update_remote_def wrapped_installs_def Let_def
      by (auto simp: lt eq penalized_ping_unat not_less)
  qed
qed

lemma route_update_remote_find:
  "smap_find b (fst (route_update_remote maxd hop i c (a, rr) (rt, pr)))
     = (if b = a \<and> wrapped_installs maxd hop c rr (smap_find a rt) then Some (route_candidate i c rr)
        else smap_find b rt)"
  by (simp add: route_update_remote_table smap_find_def map_of_smap_set)


lemma report_route_map: "route_map (fst (report_route st)) = route_map st"
  by (simp add: report_route_def Let_def)

lemma route_update_map:
  assumes "route_dirty st \<noteq> 0"
  shows "route_map (fst (route_update cons gs st))
     = fst (route_update_conns (route_max_dist st) (hop_penalization st) cons
              (route_update_gates gs ([], promisc st)))"
  using assms by (simp add: route_update_def Let_def report_route_map route_update_multi_def)

lemma candidate_eq: "route_candidate i c rr = candidate i c rr"
  by (simp add: route_candidate_def candidate_def)

lemma uint_word_of_int_u32:
  assumes "0 \<le> x" and "x < 2 ^ 32"
  shows "uint (word_of_int x :: u32) = x"
  using assms by (simp add: uint_word_of_int take_bit_int_eq_self)

lemma uint_plus_u32:
  assumes "uint (a :: u32) + uint b < 2 ^ 32"
  shows "uint (a + b) = uint a + uint b"
  using assms uint_add_lem [of a b] by simp

lemma uint_times_u32:
  assumes "uint (a :: u32) * uint b < 2 ^ 32"
  shows "uint (a * b) = uint a * uint b"
  using assms uint_mult_lem [of a b] by simp

lemma candidate_values:
  assumes "remote_in_range (i, c, a, rr)"
  shows "uint (ri_ping (candidate i c rr)) = 2 + uint (rr_ping rr) + uint (c_ping c)"
    and "uint (ri_dist (candidate i c rr)) = uint (rr_dist rr) + 1"
    and "ri_id (candidate i c rr) = i"
proof -
  from assms have d: "uint (rr_dist rr) + 1 < 2 ^ 32"
    and p: "2 + uint (rr_ping rr) + uint (c_ping c) < 2 ^ 32"
    by (simp_all add: remote_in_range_def)
  have "0 \<le> uint (rr_ping rr)" "0 \<le> uint (c_ping c)" "0 \<le> uint (rr_dist rr)" by simp_all
  then have nn: "0 \<le> 2 + uint (rr_ping rr) + uint (c_ping c)" "0 \<le> uint (rr_dist rr) + 1"
    by linarith+
  show "uint (ri_ping (candidate i c rr)) = 2 + uint (rr_ping rr) + uint (c_ping c)"
    unfolding candidate_def using uint_word_of_int_u32 [OF nn(1) p] by simp
  show "uint (ri_dist (candidate i c rr)) = uint (rr_dist rr) + 1"
    unfolding candidate_def using uint_word_of_int_u32 [OF nn(2) d] by simp
  show "ri_id (candidate i c rr) = i" by (simp add: candidate_def)
qed

lemma wrapped_installs_plain:
  assumes s: "settings_in_range maxd hop"
    and r: "remote_in_range (i, c, a, rr)"
    and w: "case current of None \<Rightarrow> True | Some cur \<Rightarrow> uint (ri_dist cur) \<le> maxd"
  shows "wrapped_installs maxd hop c rr current = installs maxd hop c rr current"
proof -
  from s have m: "0 \<le> maxd" "maxd < 2 ^ 32" and h: "0 \<le> hop" "hop < 2 ^ 32"
    and f: "100 + hop * maxd < 2 ^ 32"
    by (simp_all add: settings_in_range_def int_range_def)
  have cv: "uint (ri_ping (candidate i c rr)) = 2 + uint (rr_ping rr) + uint (c_ping c)"
    "uint (ri_dist (candidate i c rr)) = uint (rr_dist rr) + 1"
    using candidate_values [OF r] by simp_all
  have d1: "uint (1 + rr_dist rr) = uint (rr_dist rr) + 1"
    using cv(2) by (simp add: candidate_eq [symmetric] route_candidate_def)
  have p1: "uint (2 + rr_ping rr + c_ping c) = 2 + uint (rr_ping rr) + uint (c_ping c)"
    using cv(1) by (simp add: candidate_eq [symmetric] route_candidate_def)
  have mw: "uint (word_of_int maxd :: u32) = maxd"
    using m by (rule uint_word_of_int_u32)
  have le: "1 + rr_dist rr \<le> (word_of_int maxd :: u32) \<longleftrightarrow> uint (rr_dist rr) + 1 \<le> maxd"
    by (simp only: word_le_def d1 mw)
  show ?thesis
  proof (cases current)
    case None
    then show ?thesis
      unfolding wrapped_installs_def installs_def le by simp
  next
    case (Some cur)
    with w have dist: "uint (ri_dist cur) \<le> maxd" by simp
    have "hop * uint (ri_dist cur) \<le> hop * maxd"
      using dist h(1) by (rule mult_left_mono)
    with f have fl: "100 + hop * uint (ri_dist cur) < 2 ^ 32" by linarith
    have hw: "uint (word_of_int hop :: u32) = hop"
      using h by (rule uint_word_of_int_u32)
    have nn: "0 \<le> hop * uint (ri_dist cur)" using h(1) by simp
    have "uint ((word_of_int hop :: u32) * ri_dist cur) = hop * uint (ri_dist cur)"
      using uint_times_u32 [of "word_of_int hop" "ri_dist cur"] fl nn hw by simp
    then have f1: "uint ((100 :: u32) + word_of_int hop * ri_dist cur)
        = 100 + hop * uint (ri_dist cur)"
      using uint_plus_u32 [of 100 "word_of_int hop * ri_dist cur"] fl by simp
    have e: "int (unat (ri_ping cur) * unat ((100 :: u32) + word_of_int hop * ri_dist cur) div 100)
        = uint (ri_ping cur) * (100 + hop * uint (ri_dist cur)) div 100"
      by (simp add: zdiv_int f1)
    have pn: "int (unat (2 + rr_ping rr + c_ping c)) = 2 + uint (rr_ping rr) + uint (c_ping c)"
      by (simp add: p1)
    have dle: "1 + rr_dist rr \<le> ri_dist cur \<longleftrightarrow> uint (rr_dist rr) + 1 \<le> uint (ri_dist cur)"
      by (simp only: word_le_def d1)
    let ?E = "unat (ri_ping cur) * unat ((100 :: u32) + word_of_int hop * ri_dist cur) div 100"
    let ?P = "unat (2 + rr_ping rr + c_ping c)"
    have gt: "?P < ?E \<longleftrightarrow> 2 + uint (rr_ping rr) + uint (c_ping c)
        < uint (ri_ping cur) * (100 + hop * uint (ri_dist cur)) div 100"
      unfolding e [symmetric] pn [symmetric] by (simp only: of_nat_less_iff)
    have eq: "?E = ?P \<longleftrightarrow> uint (ri_ping cur) * (100 + hop * uint (ri_dist cur)) div 100
        = 2 + uint (rr_ping rr) + uint (c_ping c)"
      unfolding e [symmetric] pn [symmetric] by (simp only: of_nat_eq_iff)
    from Some show ?thesis
      unfolding wrapped_installs_def installs_def Let_def le
      by (simp add: gt eq dle)
  qed
qed


lemma route_update_remote_step:
  assumes s: "settings_in_range maxd hop"
    and r: "remote_in_range (i, c, a, rr)"
    and w: "\<forall>b cur. map_of rt b = Some cur \<longrightarrow> uint (ri_dist cur) \<le> maxd"
  shows "map_of (fst (route_update_remote maxd hop i c (a, rr) (rt, pr)))
       = install_step maxd hop (i, c, a, rr) (map_of rt)"
    and "\<forall>b cur. map_of (fst (route_update_remote maxd hop i c (a, rr) (rt, pr))) b = Some cur
          \<longrightarrow> uint (ri_dist cur) \<le> maxd"
proof -
  have cur: "case smap_find a rt of None \<Rightarrow> True | Some cur \<Rightarrow> uint (ri_dist cur) \<le> maxd"
  proof (cases "smap_find a rt")
    case None
    then show ?thesis by simp
  next
    case (Some x)
    then have "map_of rt a = Some x" by (simp add: smap_find_def)
    with w have "uint (ri_dist x) \<le> maxd" by blast
    with Some show ?thesis by simp
  qed
  note plain = wrapped_installs_plain [OF s r cur]
  show step: "map_of (fst (route_update_remote maxd hop i c (a, rr) (rt, pr)))
       = install_step maxd hop (i, c, a, rr) (map_of rt)"
    unfolding route_update_remote_table plain install_step_def
    by (simp add: map_of_smap_set candidate_eq smap_find_def)
  show "\<forall>b cur. map_of (fst (route_update_remote maxd hop i c (a, rr) (rt, pr))) b = Some cur
          \<longrightarrow> uint (ri_dist cur) \<le> maxd"
  proof (intro allI impI)
    fix b cur
    assume "map_of (fst (route_update_remote maxd hop i c (a, rr) (rt, pr))) b = Some cur"
    then have "install_step maxd hop (i, c, a, rr) (map_of rt) b = Some cur"
      by (simp only: step)
    then consider "map_of rt b = Some cur"
      | "installs maxd hop c rr (map_of rt a)" and "cur = candidate i c rr"
      unfolding install_step_def
      by (cases "installs maxd hop c rr (map_of rt a)"; cases "b = a") simp_all
    then show "uint (ri_dist cur) \<le> maxd"
    proof cases
      case 1
      with w show ?thesis by blast
    next
      case 2
      then show ?thesis
        using candidate_values(2) [OF r] by (simp add: installs_def)
    qed
  qed
qed

lemma route_update_remotes_steps:
  assumes s: "settings_in_range maxd hop"
    and r: "list_all (\<lambda>j. remote_in_range (i, c, fst j, snd j)) js"
    and w: "\<forall>b cur. map_of (fst rp) b = Some cur \<longrightarrow> uint (ri_dist cur) \<le> maxd"
  shows "map_of (fst (route_update_remotes maxd hop i c js rp))
       = fold (install_step maxd hop) (map (\<lambda>j. (i, c, fst j, snd j)) js) (map_of (fst rp))
     \<and> (\<forall>b cur. map_of (fst (route_update_remotes maxd hop i c js rp)) b = Some cur
          \<longrightarrow> uint (ri_dist cur) \<le> maxd)"
  using r w
proof (induction js arbitrary: rp)
  case Nil
  then show ?case by simp
next
  case (Cons j js)
  from Cons.prems(1) have rj: "remote_in_range (i, c, fst j, snd j)"
    and rjs: "list_all (\<lambda>j. remote_in_range (i, c, fst j, snd j)) js"
    by simp_all
  have w': "\<forall>b cur. map_of (fst rp) b = Some cur \<longrightarrow> uint (ri_dist cur) \<le> maxd"
    using Cons.prems(2) .
  note step = route_update_remote_step [OF s rj w', of "snd rp"]
  have one: "route_update_remote maxd hop i c j rp
      = route_update_remote maxd hop i c (fst j, snd j) (fst rp, snd rp)"
    by simp
  from Cons.IH [OF rjs, of "route_update_remote maxd hop i c j rp"] step
  show ?case
    unfolding one by simp
qed

lemma active_remotes_Cons:
  "active_remotes (ic # cons)
     = (if c_state (snd ic) = cs_active
        then map (\<lambda>j. (fst ic, snd ic, fst j, snd j)) (c_remote_routes (snd ic)) else [])
       @ active_remotes cons"
  by (simp add: active_remotes_def)

lemma route_update_conns_steps:
  assumes s: "settings_in_range maxd hop"
    and r: "list_all remote_in_range (active_remotes cons)"
    and w: "\<forall>b cur. map_of (fst rp) b = Some cur \<longrightarrow> uint (ri_dist cur) \<le> maxd"
  shows "map_of (fst (route_update_conns maxd hop cons rp))
       = fold (install_step maxd hop) (active_remotes cons) (map_of (fst rp))"
  using r w
proof (induction cons arbitrary: rp)
  case Nil
  show ?case by (simp add: active_remotes_def)
next
  case (Cons ic cons)
  show ?case
  proof (cases "c_state (snd ic) = cs_active")
    case False
    with Cons.prems(1) have "list_all remote_in_range (active_remotes cons)"
      by (simp add: active_remotes_Cons)
    from Cons.IH [OF this Cons.prems(2)] False show ?thesis
      by (simp add: active_remotes_Cons)
  next
    case True
    with Cons.prems(1)
    have here: "list_all (\<lambda>j. remote_in_range (fst ic, snd ic, fst j, snd j))
        (c_remote_routes (snd ic))"
      and rest: "list_all remote_in_range (active_remotes cons)"
      by (simp_all add: active_remotes_Cons list_all_iff)
    note steps = route_update_remotes_steps [OF s here Cons.prems(2)]
    from steps have w': "\<forall>b cur. map_of (fst (route_update_remotes maxd hop (fst ic) (snd ic)
          (c_remote_routes (snd ic)) rp)) b = Some cur \<longrightarrow> uint (ri_dist cur) \<le> maxd"
      by blast
    from Cons.IH [OF rest w'] steps True show ?thesis
      by (simp add: active_remotes_Cons)
  qed
qed

lemma route_update_locals_dist:
  assumes "\<forall>b cur. map_of (fst rp) b = Some cur \<longrightarrow> ri_dist cur = 0"
  shows "\<forall>b cur. map_of (fst (route_update_locals g ks rp)) b = Some cur \<longrightarrow> ri_dist cur = 0"
  using assms
proof (induction ks arbitrary: rp)
  case Nil
  then show ?case by simp
next
  case (Cons k ks)
  let ?temp = "\<lparr>ri_ping = 1, ri_dist = 0, ri_id = - (1 + g_id g)\<rparr>"
  let ?rp = "(smap_set k ?temp (fst rp),
              if addr_bytes k = [] then mmap_insert k ?temp (snd rp) else snd rp)"
  have "\<forall>b cur. map_of (fst ?rp) b = Some cur \<longrightarrow> ri_dist cur = 0"
  proof (intro allI impI)
    fix b cur
    assume "map_of (fst ?rp) b = Some cur"
    then have upd: "((map_of (fst rp))(k \<mapsto> ?temp)) b = Some cur"
      by (simp only: fst_conv map_of_smap_set)
    show "ri_dist cur = 0"
    proof (cases "b = k")
      case True
      with upd have "cur = ?temp" by simp
      then show ?thesis by simp
    next
      case False
      with upd have "map_of (fst rp) b = Some cur" by simp
      with Cons.prems show ?thesis by blast
    qed
  qed
  from Cons.IH [OF this] show ?case
    by (simp only: route_update_locals.simps Let_def)
qed

lemma route_update_gates_dist:
  assumes "\<forall>b cur. map_of (fst rp) b = Some cur \<longrightarrow> ri_dist cur = 0"
  shows "\<forall>b cur. map_of (fst (route_update_gates gs rp)) b = Some cur \<longrightarrow> ri_dist cur = 0"
  using assms
proof (induction gs arbitrary: rp)
  case Nil
  then show ?case by simp
next
  case (Cons g gs)
  let ?rp = "if g_fd (snd g) < 0 then rp else route_update_locals (snd g) (g_local (snd g)) rp"
  have "\<forall>b cur. map_of (fst ?rp) b = Some cur \<longrightarrow> ri_dist cur = 0"
  proof (cases "g_fd (snd g) < 0")
    case True
    with Cons.prems show ?thesis by (simp only: if_True)
  next
    case False
    with route_update_locals_dist [OF Cons.prems, of "snd g" "g_local (snd g)"]
    show ?thesis by (simp only: if_False)
  qed
  from Cons.IH [OF this] show ?case
    by (simp only: route_update_gates.simps)
qed

text \<open>
  C6, as the claim states it, fails. With \<open>hop_penalization\<close> 20, an entry with ping 18
  and dist 3 has \<open>effective = 18 * 160 / 100 = 28.8\<close>, above the ping 28 of a candidate
  with dist 5, so the rule of the claim replaces the entry; the code divides in integers,
  finds 28 equal to 28 and the entry nearer, and keeps it. And a remote route with
  \<open>d = 4294967295\<close> has \<open>d + 1\<close> above \<open>route_max_dist = 64\<close>, so the claim never
  installs it; in the code \<open>1 + d\<close> wraps to 0 and the route is installed with dist 0.
\<close>

theorem route_update_rule_as_claimed_fails:
  "claimed_installs 64 20 (snd (example_conn 1 cs_active [])) \<lparr>rr_ping = 21, rr_dist = 4\<rparr>
     (Some \<lparr>ri_ping = 18, ri_dist = 3, ri_id = 0\<rparr>)
   \<and> route_map (fst (route_update (example_relays 21 4) []
        (initial_state\<lparr>route_dirty := 1, hop_penalization := 20\<rparr>)))
     = [((7, [1]), \<lparr>ri_ping = 18, ri_dist = 3, ri_id = 0\<rparr>)]
   \<and> \<not> claimed_installs 64 0 (snd (example_conn 1 cs_active []))
         \<lparr>rr_ping = 5, rr_dist = 4294967295\<rparr> (Some \<lparr>ri_ping = 18, ri_dist = 3, ri_id = 0\<rparr>)
   \<and> route_map (fst (route_update (example_relays 5 4294967295) []
        (initial_state\<lparr>route_dirty := 1\<rparr>)))
     = [((7, [1]), \<lparr>ri_ping = 12, ri_dist = 0, ri_id = 1\<rparr>)]"
  by (simp add: claimed_installs_def example_conn_def example_relays_def route_update_def
      Let_def initial_state_def cs_active_def route_update_remote_def smap_find_def
      report_route_def route_candidate_def addr_bytes_def penalized_ping_def
      word_less_nat_alt word_le_nat_alt)

text \<open>
  C6, amended. Let \<open>route_max_dist\<close> and \<open>hop_penalization\<close> be not negative with
  \<open>100 + hop_penalization * route_max_dist < 2^32\<close>, and let \<open>d + 1\<close> and
  \<open>2 + p + c.ping\<close> be below \<open>2^32\<close> for every remote route of an Active connection.
  Then the table that \<open>route_update\<close> leaves is the table of the gates to which the rule
  \<open>install_step\<close> has been applied for every Active connection, in the order of their
  keys, and for every remote route of it, in the order of the addresses: the candidate
  with ping \<open>2 + p + c.ping\<close>, dist \<open>d + 1\<close> and the id of the connection is entered if
  \<open>d + 1 \<le> route_max_dist\<close> and there is no entry for the address, or the entry has
  \<open>effective > ping\<close>, or \<open>effective = ping\<close> and a dist of at least \<open>d + 1\<close>, where
  \<open>effective\<close> is \<open>current.ping * (100 + hop_penalization * current.dist) / 100\<close> rounded
  down; in every other case, so whenever \<open>d + 1 > route_max_dist\<close>, the table is left
  as it is. Connections that are not Active are passed over.
\<close>

theorem route_update_install_rule:
  assumes "route_dirty st \<noteq> 0"
    and "settings_in_range (route_max_dist st) (hop_penalization st)"
    and "list_all remote_in_range (active_remotes cons)"
  shows "smap_find b (route_map (fst (route_update cons gs st)))
       = fold (install_step (route_max_dist st) (hop_penalization st)) (active_remotes cons)
           (map_of (fst (route_update_gates gs ([], promisc st)))) b
     \<and> list_all (\<lambda>x. uint (ri_ping (candidate (fst x) (fst (snd x)) (snd (snd (snd x)))))
                         = 2 + uint (rr_ping (snd (snd (snd x)))) + uint (c_ping (fst (snd x)))
                       \<and> uint (ri_dist (candidate (fst x) (fst (snd x)) (snd (snd (snd x)))))
                         = uint (rr_dist (snd (snd (snd x)))) + 1
                       \<and> ri_id (candidate (fst x) (fst (snd x)) (snd (snd (snd x)))) = fst x)
         (active_remotes cons)"
proof
  have "\<forall>b cur. map_of (fst (route_update_gates gs ([], promisc st))) b = Some cur
      \<longrightarrow> ri_dist cur = 0"
    by (rule route_update_gates_dist) simp
  moreover have "0 \<le> route_max_dist st"
    using assms(2) by (simp add: settings_in_range_def)
  ultimately have w: "\<forall>b cur. map_of (fst (route_update_gates gs ([], promisc st))) b = Some cur
      \<longrightarrow> uint (ri_dist cur) \<le> route_max_dist st"
    by auto
  show "smap_find b (route_map (fst (route_update cons gs st)))
       = fold (install_step (route_max_dist st) (hop_penalization st)) (active_remotes cons)
           (map_of (fst (route_update_gates gs ([], promisc st)))) b"
    unfolding smap_find_def route_update_map [OF assms(1)]
      route_update_conns_steps [OF assms(2,3) w] ..
  show "list_all (\<lambda>x. uint (ri_ping (candidate (fst x) (fst (snd x)) (snd (snd (snd x)))))
                         = 2 + uint (rr_ping (snd (snd (snd x)))) + uint (c_ping (fst (snd x)))
                       \<and> uint (ri_dist (candidate (fst x) (fst (snd x)) (snd (snd (snd x)))))
                         = uint (rr_dist (snd (snd (snd x)))) + 1
                       \<and> ri_id (candidate (fst x) (fst (snd x)) (snd (snd (snd x)))) = fst x)
         (active_remotes cons)"
    unfolding list_all_iff
  proof
    fix x
    assume "x \<in> set (active_remotes cons)"
    with assms(3) have "remote_in_range x" by (simp add: list_all_iff)
    then have "remote_in_range (fst x, fst (snd x), fst (snd (snd x)), snd (snd (snd x)))"
      by simp
    from candidate_values [OF this]
    show "uint (ri_ping (candidate (fst x) (fst (snd x)) (snd (snd (snd x)))))
                         = 2 + uint (rr_ping (snd (snd (snd x)))) + uint (c_ping (fst (snd x)))
                       \<and> uint (ri_dist (candidate (fst x) (fst (snd x)) (snd (snd (snd x)))))
                         = uint (rr_dist (snd (snd (snd x)))) + 1
                       \<and> ri_id (candidate (fst x) (fst (snd x)) (snd (snd (snd x)))) = fst x"
      by simp
  qed
qed


theorem route_update_install_rule_witness:
  "route_dirty (initial_state\<lparr>route_dirty := 1, hop_penalization := 20\<rparr>) \<noteq> 0
   \<and> settings_in_range 64 20
   \<and> list_all remote_in_range (active_remotes (example_relays 21 4))
   \<and> list_all remote_in_range (active_remotes (example_relays 20 4))
   \<and> smap_find (7, [1]) (route_map (fst (route_update (example_relays 21 4) []
        (initial_state\<lparr>route_dirty := 1, hop_penalization := 20\<rparr>))))
     = Some \<lparr>ri_ping = 18, ri_dist = 3, ri_id = 0\<rparr>
   \<and> smap_find (7, [1]) (route_map (fst (route_update (example_relays 20 4) []
        (initial_state\<lparr>route_dirty := 1, hop_penalization := 20\<rparr>))))
     = Some \<lparr>ri_ping = 27, ri_dist = 5, ri_id = 1\<rparr>
   \<and> smap_find (7, [1]) (route_map (fst (route_update (example_relays 20 64) []
        (initial_state\<lparr>route_dirty := 1, hop_penalization := 20\<rparr>))))
     = Some \<lparr>ri_ping = 18, ri_dist = 3, ri_id = 0\<rparr>"
proof -
  let ?st = "initial_state\<lparr>route_dirty := 1, hop_penalization := 20\<rparr>"
  have d: "route_dirty ?st \<noteq> 0" by simp
  have s: "settings_in_range (route_max_dist ?st) (hop_penalization ?st)"
    by (simp add: settings_in_range_def int_range_def initial_state_def)
  have r: "list_all remote_in_range (active_remotes (example_relays p d))"
    if "uint d + 1 < 2 ^ 32" and "7 + uint p < 2 ^ 32" for p d
    using that
    by (simp add: remote_in_range_def active_remotes_def example_relays_def example_conn_def)
  have mx: "route_max_dist ?st = 64" "hop_penalization ?st = 20" "promisc ?st = []"
    by (simp_all add: initial_state_def)
  have rule: "fold (install_step 64 20) (active_remotes (example_relays p d)) Map.empty (7, [1])
      = (if installs 64 20 (snd (example_conn 1 cs_active [])) \<lparr>rr_ping = p, rr_dist = d\<rparr>
            (Some \<lparr>ri_ping = 18, ri_dist = 3, ri_id = 0\<rparr>)
         then Some (candidate 1 (snd (example_conn 1 cs_active [])) \<lparr>rr_ping = p, rr_dist = d\<rparr>)
         else Some \<lparr>ri_ping = 18, ri_dist = 3, ri_id = 0\<rparr>)" for p d
    by (simp add: active_remotes_def example_relays_def example_conn_def install_step_def
        installs_def candidate_def)
  have i: "\<not> installs 64 20 (snd (example_conn 1 cs_active [])) \<lparr>rr_ping = 21, rr_dist = 4\<rparr>
            (Some \<lparr>ri_ping = 18, ri_dist = 3, ri_id = 0\<rparr>)"
    "installs 64 20 (snd (example_conn 1 cs_active [])) \<lparr>rr_ping = 20, rr_dist = 4\<rparr>
            (Some \<lparr>ri_ping = 18, ri_dist = 3, ri_id = 0\<rparr>)"
    "\<not> installs 64 20 (snd (example_conn 1 cs_active [])) \<lparr>rr_ping = 20, rr_dist = 64\<rparr>
            (Some \<lparr>ri_ping = 18, ri_dist = 3, ri_id = 0\<rparr>)"
    by (simp_all add: installs_def example_conn_def)
  have r1: "list_all remote_in_range (active_remotes (example_relays 21 4))"
    and r2: "list_all remote_in_range (active_remotes (example_relays 20 4))"
    and r3: "list_all remote_in_range (active_remotes (example_relays 20 64))"
    by (rule r; simp)+
  have cand: "candidate 1 (snd (example_conn 1 cs_active [])) \<lparr>rr_ping = 20, rr_dist = 4\<rparr>
      = \<lparr>ri_ping = 27, ri_dist = 5, ri_id = 1\<rparr>"
    by (simp add: candidate_def example_conn_def)
  have e1: "smap_find (7, [1]) (route_map (fst (route_update (example_relays 21 4) [] ?st)))
      = Some \<lparr>ri_ping = 18, ri_dist = 3, ri_id = 0\<rparr>"
    using route_update_install_rule [OF d s r1, of "(7, [1])" "[]", unfolded mx]
    by (simp add: rule i)
  have e2: "smap_find (7, [1]) (route_map (fst (route_update (example_relays 20 4) [] ?st)))
      = Some \<lparr>ri_ping = 27, ri_dist = 5, ri_id = 1\<rparr>"
    using route_update_install_rule [OF d s r2, of "(7, [1])" "[]", unfolded mx]
    by (simp add: rule i cand)
  have e3: "smap_find (7, [1]) (route_map (fst (route_update (example_relays 20 64) [] ?st)))
      = Some \<lparr>ri_ping = 18, ri_dist = 3, ri_id = 0\<rparr>"
    using route_update_install_rule [OF d s r3, of "(7, [1])" "[]", unfolded mx]
    by (simp add: rule i)
  from e1 e2 e3 d s [unfolded mx] r1 r2 show ?thesis by simp
qed

subsection \<open>Reporting routes\<close>

lemma report_apply_map_of:
  assumes "distinct (map fst reps)"
  shows "map_of (report_apply reps m) a
     = (case map_of reps a of
          None \<Rightarrow> map_of m a
        | Some ri \<Rightarrow> if ri_ping ri \<noteq> 0 then Some ri else None)"
  using assms
proof (induction reps arbitrary: m)
  case Nil
  show ?case by simp
next
  case (Cons rep reps)
  have notin: "map_of reps (fst rep) = None"
    using Cons.prems by (simp add: map_of_eq_None_iff)
  from Cons.prems have "distinct (map fst reps)" by simp
  note IH = Cons.IH [OF this]
  have split: "map_of (rep # reps) a = (if a = fst rep then Some (snd rep) else map_of reps a)"
    by (cases rep) simp
  show ?case
  proof (cases "a = fst rep")
    case True
    with notin show ?thesis
      unfolding split report_apply.simps IH
      by (simp add: map_of_smap_set map_of_smap_erase)
  next
    case False
    then show ?thesis
      unfolding split report_apply.simps IH
      by (simp add: map_of_smap_set map_of_smap_erase split: option.splits)
  qed
qed

lemma report_diff_keys:
  "a \<in> fst ` set (report_diff diff rs olds) \<Longrightarrow> a \<in> fst ` set rs \<or> a \<in> fst ` set olds"
proof (induction diff rs olds rule: report_diff.induct)
  case (1 diff r rs oldr oldrs)
  show ?case
  proof (cases "fst r = fst oldr")
    case True
    show ?thesis
    proof (cases "route_differs diff (snd r) (snd oldr)")
      case d: True
      with True "1.prems" "1.IH"(1) show ?thesis by auto
    next
      case d: False
      with True "1.prems" "1.IH"(2) show ?thesis by auto
    qed
  next
    case ne: False
    show ?thesis
    proof (cases "fst r < fst oldr")
      case True
      with ne "1.prems" "1.IH"(3) show ?thesis by auto
    next
      case False
      with ne "1.prems" "1.IH"(4) show ?thesis by auto
    qed
  qed
next
  case (2 diff r rs)
  then show ?case by auto
next
  case (3 diff oldr oldrs)
  then show ?case by auto
next
  case (4 diff)
  then show ?case by simp
qed

lemma report_diff_above:
  assumes "\<forall>k \<in> fst ` set rs. x < k" and "\<forall>k \<in> fst ` set olds. x < k"
  shows "\<forall>k \<in> fst ` set (report_diff diff rs olds). x < k"
proof
  fix k
  assume "k \<in> fst ` set (report_diff diff rs olds)"
  from report_diff_keys [OF this] assms show "x < k" by blast
qed

lemma report_diff_sorted:
  assumes "sorted_wrt (<) (map fst rs)" and "sorted_wrt (<) (map fst olds)"
  shows "sorted_wrt (<) (map fst (report_diff diff rs olds))"
  using assms
proof (induction diff rs olds rule: report_diff.induct)
  case (1 diff r rs oldr oldrs)
  have r: "\<forall>k \<in> fst ` set rs. fst r < k" and o: "\<forall>k \<in> fst ` set oldrs. fst oldr < k"
    and srs: "sorted_wrt (<) (map fst rs)" and sos: "sorted_wrt (<) (map fst oldrs)"
    using "1.prems" by auto
  show ?case
  proof (cases "fst r = fst oldr")
    case True
    show ?thesis
    proof (cases "route_differs diff (snd r) (snd oldr)")
      case d: True
      from o True have "\<forall>k \<in> fst ` set oldrs. fst r < k" by simp
      with r have "\<forall>k \<in> fst ` set (report_diff diff rs oldrs). fst r < k"
        by (rule report_diff_above)
      with "1.IH"(1) [OF True d srs sos] True d show ?thesis by simp
    next
      case d: False
      from "1.IH"(2) [OF True d srs sos] True d show ?thesis by simp
    qed
  next
    case ne: False
    show ?thesis
    proof (cases "fst r < fst oldr")
      case True
      have "\<forall>k \<in> fst ` set (oldr # oldrs). fst r < k"
        using o True by auto
      with r have "\<forall>k \<in> fst ` set (report_diff diff rs (oldr # oldrs)). fst r < k"
        by (rule report_diff_above)
      with "1.IH"(3) [OF ne True srs "1.prems"(2)] ne True show ?thesis by simp
    next
      case False
      with ne have gt: "fst oldr < fst r" by simp
      have "\<forall>k \<in> fst ` set (r # rs). fst oldr < k"
        using r gt by auto
      then have "\<forall>k \<in> fst ` set (report_diff diff (r # rs) oldrs). fst oldr < k"
        using o by (rule report_diff_above)
      with "1.IH"(4) [OF ne False "1.prems"(1) sos] ne False show ?thesis by simp
    qed
  qed
next
  case (2 diff r rs)
  then have r: "\<forall>k \<in> fst ` set rs. fst r < k" and srs: "sorted_wrt (<) (map fst rs)"
    by auto
  have "\<forall>k \<in> fst ` set (report_diff diff rs []). fst r < k"
    using r by (rule report_diff_above) simp
  with "2.IH" [OF srs] show ?case by simp
next
  case (3 diff oldr oldrs)
  then have o: "\<forall>k \<in> fst ` set oldrs. fst oldr < k" and sos: "sorted_wrt (<) (map fst oldrs)"
    by auto
  have "\<forall>k \<in> fst ` set (report_diff diff [] oldrs). fst oldr < k"
    using _ o by (rule report_diff_above) simp
  with "3.IH" [OF _ sos] show ?case by simp
next
  case (4 diff)
  show ?case by simp
qed


lemma map_of_above:
  fixes x :: "'k::order"
  assumes "\<forall>k \<in> fst ` set m. x < k"
  shows "map_of m x = None"
proof -
  from assms have "x \<notin> fst ` set m" by auto
  then show ?thesis by (simp add: map_of_eq_None_iff)
qed

lemma map_of_Cons_fst:
  "map_of (r # rs) a = (if a = fst r then Some (snd r) else map_of rs a)"
  by (cases r) simp

lemma report_diff_map_of:
  assumes "sorted_wrt (<) (map fst rs)" and "sorted_wrt (<) (map fst olds)"
  shows "map_of (report_diff diff rs olds) a
     = (case map_of rs a of
          None \<Rightarrow> (case map_of olds a of None \<Rightarrow> None | Some oldr \<Rightarrow> Some withdrawn)
        | Some r \<Rightarrow>
            (case map_of olds a of
               None \<Rightarrow> Some r
             | Some oldr \<Rightarrow> if route_differs diff r oldr then Some r else None))"
  using assms
proof (induction diff rs olds rule: report_diff.induct)
  case (1 diff r rs oldr oldrs)
  have r: "\<forall>k \<in> fst ` set rs. fst r < k" and o: "\<forall>k \<in> fst ` set oldrs. fst oldr < k"
    and srs: "sorted_wrt (<) (map fst rs)" and sos: "sorted_wrt (<) (map fst oldrs)"
    using "1.prems" by auto
  note rn = map_of_above [OF r] and on = map_of_above [OF o]
  show ?case
  proof (cases "fst r = fst oldr")
    case True
    show ?thesis
    proof (cases "route_differs diff (snd r) (snd oldr)")
      case d: True
      show ?thesis
      proof (cases "a = fst r")
        case here: True
        with True d show ?thesis by (simp cong: option.case_cong)
      next
        case other: False
        with True d "1.IH"(1) [OF True d srs sos] show ?thesis by (simp cong: option.case_cong)
      qed
    next
      case d: False
      show ?thesis
      proof (cases "a = fst r")
        case here: True
        with True d rn on "1.IH"(2) [OF True d srs sos] show ?thesis by (simp cong: option.case_cong)
      next
        case other: False
        with True d "1.IH"(2) [OF True d srs sos] show ?thesis by (simp cong: option.case_cong)
      qed
    qed
  next
    case ne: False
    show ?thesis
    proof (cases "fst r < fst oldr")
      case True
      have "\<forall>k \<in> fst ` set (oldr # oldrs). fst r < k"
        using o True by auto
      note below = map_of_above [OF this]
      show ?thesis
      proof (cases "a = fst r")
        case here: True
        have "map_of (report_diff diff (r # rs) (oldr # oldrs)) a = Some (snd r)"
          using ne True here by simp
        moreover have "map_of (r # rs) a = Some (snd r)" using here by simp
        moreover have "map_of (oldr # oldrs) a = None" using here below by simp
        ultimately show ?thesis by (simp cong: option.case_cong)
      next
        case other: False
        have "map_of (report_diff diff (r # rs) (oldr # oldrs)) a
            = map_of (report_diff diff rs (oldr # oldrs)) a"
          using ne True other by simp
        moreover have "map_of (r # rs) a = map_of rs a" using other by simp
        ultimately show ?thesis
          using "1.IH"(3) [OF ne True srs "1.prems"(2)] by (simp cong: option.case_cong)
      qed
    next
      case False
      with ne have gt: "fst oldr < fst r" by simp
      have "\<forall>k \<in> fst ` set (r # rs). fst oldr < k"
        using r gt by auto
      note below = map_of_above [OF this]
      show ?thesis
      proof (cases "a = fst oldr")
        case here: True
        have "map_of (report_diff diff (r # rs) (oldr # oldrs)) a = Some withdrawn"
          using ne False here by simp
        moreover have "map_of (oldr # oldrs) a = Some (snd oldr)" using here by simp
        moreover have "map_of (r # rs) a = None" using here below by simp
        ultimately show ?thesis by (simp cong: option.case_cong)
      next
        case other: False
        have "map_of (report_diff diff (r # rs) (oldr # oldrs)) a
            = map_of (report_diff diff (r # rs) oldrs) a"
          using ne False other by simp
        moreover have "map_of (oldr # oldrs) a = map_of oldrs a" using other by simp
        ultimately show ?thesis
          using "1.IH"(4) [OF ne False "1.prems"(1) sos] by (simp cong: option.case_cong)
      qed
    qed
  qed
next
  case (2 diff r rs)
  then have srs: "sorted_wrt (<) (map fst rs)" by simp
  show ?case
    using "2.IH" [OF srs] by (simp cong: option.case_cong)
next
  case (3 diff oldr oldrs)
  then have sos: "sorted_wrt (<) (map fst oldrs)" by simp
  show ?case
    using "3.IH" [OF _ sos] by (simp cong: option.case_cong)
next
  case (4 diff)
  show ?case by simp
qed


lemma smap_set_keys: "fst ` set (smap_set k v m) = insert k (fst ` set m)"
  by (simp add: dom_map_of_conv_image_fst [symmetric] map_of_smap_set)

lemma smap_set_sorted:
  "sorted_wrt (<) (map fst m) \<Longrightarrow> sorted_wrt (<) (map fst (smap_set k v m))"
proof (induction m)
  case Nil
  show ?case by simp
next
  case (Cons e m)
  then have above: "\<forall>x \<in> fst ` set m. fst e < x" and sm: "sorted_wrt (<) (map fst m)"
    by auto
  show ?case
  proof (cases "k < fst e")
    case True
    with above Cons.prems show ?thesis by (cases e) auto
  next
    case False
    show ?thesis
    proof (cases "k = fst e")
      case True
      with above sm show ?thesis by (cases e) auto
    next
      case ne: False
      with False have "fst e < k" by simp
      with above have "\<forall>x \<in> fst ` set (smap_set k v m). fst e < x"
        by (simp add: smap_set_keys)
      with Cons.IH [OF sm] False ne show ?thesis by (cases e) auto
    qed
  qed
qed

lemma smap_erase_filter: "smap_erase k m = filter (\<lambda>e. fst e \<noteq> k) m"
  by (induction m) auto

lemma smap_erase_sorted:
  "sorted_wrt (<) (map fst m) \<Longrightarrow> sorted_wrt (<) (map fst (smap_erase k m))"
  by (simp add: smap_erase_filter sorted_wrt_map sorted_wrt_filter)

lemma report_apply_sorted:
  "sorted_wrt (<) (map fst m) \<Longrightarrow> sorted_wrt (<) (map fst (report_apply reps m))"
  by (induction reps arbitrary: m) (simp_all add: smap_set_sorted smap_erase_sorted)

lemma report_route_reported:
  "reported_route (fst (report_route st))
     = report_apply (report_diff (route_report_ping_diff st) (route_map st) (reported_route st))
         (reported_route st)"
  by (simp add: report_route_def Let_def)

text \<open>
  C2, as the claim states it, fails: \<open>route\<close> holds one address with ping 10 and dist 1,
  \<open>reported_route\<close> holds it with ping 12 and dist 1, and \<open>route_report_ping_diff\<close> is
  5000. \<open>report_route\<close> finds nothing to report and leaves the ping 12.
\<close>

theorem report_route_keeps_close_ping:
  "ping_dist (reported_route (fst (report_route
      (initial_state\<lparr>route_map := example_routes 10, reported_route := example_routes 12\<rparr>))))
   \<noteq> ping_dist (nonzero_routes (route_map
      (initial_state\<lparr>route_map := example_routes 10, reported_route := example_routes 12\<rparr>)))"
  by (simp add: report_route_def initial_state_def example_routes_def ping_dist_def
      nonzero_routes_def route_differs_def word_less_nat_alt)

lemma unat_word_of_int_mod: "unat (word_of_int x :: u32) = nat (x mod 2 ^ 32)"
  by (simp add: unat_eq_nat_uint uint_word_of_int take_bit_eq_mod)

lemma unat_minus_u32:
  assumes "unat (b :: u32) \<le> unat a"
  shows "unat (a - b) = unat a - unat b"
  using assms by (simp add: unat_sub word_le_nat_alt)

text \<open>The test of the code is the comparison of the gap with the unsigned threshold.\<close>

lemma route_differs_gap:
  "route_differs diff r oldr \<longleftrightarrow>
     unsigned_threshold diff < ping_gap (ri_ping r) (ri_ping oldr) \<or> ri_dist r \<noteq> ri_dist oldr"
proof (cases "unat (ri_ping oldr) < unat (ri_ping r)")
  case True
  then have "unat (ri_ping r - ri_ping oldr) = unat (ri_ping r) - unat (ri_ping oldr)"
    by (simp add: unat_minus_u32)
  with True show ?thesis
    by (simp add: route_differs_def ping_gap_def unsigned_threshold_def word_less_nat_alt
        unat_word_of_int_mod)
next
  case False
  then have "unat (ri_ping oldr - ri_ping r) = unat (ri_ping oldr) - unat (ri_ping r)"
    by (simp add: unat_minus_u32)
  with False show ?thesis
    by (simp add: route_differs_def ping_gap_def unsigned_threshold_def word_less_nat_alt
        unat_word_of_int_mod)
qed

lemma unsigned_threshold_plain:
  "0 \<le> diff \<Longrightarrow> diff < 2 ^ 32 \<Longrightarrow> unsigned_threshold diff = nat diff"
  by (simp add: unsigned_threshold_def)

text \<open>
  C2, amended. For tables in ascending order of their addresses, after \<open>report_route\<close> the
  table \<open>reported_route\<close> holds for every address what \<open>reported_after\<close> says: no entry
  for an address that \<open>route\<close> lacks; the entry it held before for an address that both
  tables hold with equal dist and with pings that differ by at most
  \<open>route_report_ping_diff\<close>, this threshold being read as an unsigned 32-bit number (which
  it is itself when it is not negative, see \<open>unsigned_threshold_plain\<close>); and for every
  other address of \<open>route\<close> the entry of \<open>route\<close> if its ping is not zero, none if it is.
  The table stays in ascending order.
\<close>

theorem report_route_result:
  assumes "smap_ok (route_map st)" and "smap_ok (reported_route st)"
  shows "smap_find a (reported_route (fst (report_route st)))
       = reported_after (route_report_ping_diff st)
           (smap_find a (route_map st)) (smap_find a (reported_route st))
     \<and> smap_ok (reported_route (fst (report_route st)))"
proof
  let ?report = "report_diff (route_report_ping_diff st) (route_map st) (reported_route st)"
  from assms have s: "sorted_wrt (<) (map fst (route_map st))"
    "sorted_wrt (<) (map fst (reported_route st))"
    by (simp_all add: smap_ok_def)
  have "sorted_wrt (<) (map fst ?report)"
    using s by (rule report_diff_sorted)
  then have "distinct (map fst ?report)"
    by (simp add: strict_sorted_iff)
  note app = report_apply_map_of [OF this, of "reported_route st" a]
  note dif = report_diff_map_of [OF s, of "route_report_ping_diff st" a]
  show "smap_find a (reported_route (fst (report_route st)))
       = reported_after (route_report_ping_diff st)
           (smap_find a (route_map st)) (smap_find a (reported_route st))"
    unfolding report_route_reported smap_find_def app dif reported_after_def
      route_differs_gap
    by (simp add: withdrawn_def split: option.splits)
  show "smap_ok (reported_route (fst (report_route st)))"
    unfolding report_route_reported smap_ok_def
    using s(2) by (rule report_apply_sorted)
qed

theorem report_route_result_witness:
  "smap_ok (route_map (example_report 10 12 5000))
   \<and> smap_ok (reported_route (example_report 10 12 5000))
   \<and> smap_find (7, [1]) (reported_route (fst (report_route (example_report 10 12 5000))))
     = Some \<lparr>ri_ping = 12, ri_dist = 1, ri_id = 0\<rparr>
   \<and> smap_find (7, [1]) (reported_route (fst (report_route (example_report 5013 12 5000))))
     = Some \<lparr>ri_ping = 5013, ri_dist = 1, ri_id = 0\<rparr>
   \<and> smap_find (7, [1]) (reported_route (fst (report_route (example_report 5012 12 5000))))
     = Some \<lparr>ri_ping = 12, ri_dist = 1, ri_id = 0\<rparr>
   \<and> smap_find (7, [1])
       (reported_route (fst (report_route (example_report 10 4000000000 (- 1)))))
     = Some \<lparr>ri_ping = 4000000000, ri_dist = 1, ri_id = 0\<rparr>"
proof -
  have ok: "smap_ok (route_map (example_report p q diff))"
    "smap_ok (reported_route (example_report p q diff))" for p q diff
    by (simp_all add: smap_ok_def example_routes_def example_report_def)
  have after: "reported_after (route_report_ping_diff (example_report p q diff))
      (smap_find (7, [1]) (route_map (example_report p q diff)))
      (smap_find (7, [1]) (reported_route (example_report p q diff)))
    = (if unsigned_threshold diff < ping_gap p q then (if p \<noteq> 0 then Some \<lparr>ri_ping = p, ri_dist = 1, ri_id = 0\<rparr> else None)
       else Some \<lparr>ri_ping = q, ri_dist = 1, ri_id = 0\<rparr>)" for p q diff
    by (simp add: reported_after_def smap_find_def example_routes_def example_report_def)
  from report_route_result [OF ok, of "(7, [1])" 10 12 5000]
    report_route_result [OF ok, of "(7, [1])" 5013 12 5000]
    report_route_result [OF ok, of "(7, [1])" 5012 12 5000]
    report_route_result [OF ok, of "(7, [1])" 10 4000000000 "- 1"]
  show ?thesis
    using ok [of 10 12 5000]
    by (simp add: after unsigned_threshold_def ping_gap_def)
qed

subsection \<open>The scattering walk\<close>

lemma scatter_walk_round:
  assumes "js \<noteq> []" and "int_range (ratio * fst (hd js))"
    and "n = length (scatter_group (ratio * fst (hd js)) js)"
  shows "multiroute_scatter_walk ratio frm rnd pos js =
       (let rest = drop n js;
             r = (if rest = [] then rnd pos mod n else rnd pos mod (n + 1))
         in if r \<noteq> n then
              (if snd (js ! r) = frm then multiroute_scatter_walk ratio frm rnd (Suc pos) rest
               else Inr (Some (snd (js ! r)), Suc pos))
            else if n = 0 then Inl NoReturn
            else multiroute_scatter_walk ratio frm rnd (Suc pos) rest)"
  using assms by (subst multiroute_scatter_walk.simps) (simp add: Let_def)


lemma scatter_walk_end: "multiroute_scatter_walk ratio frm rnd pos [] = Inr (None, pos)"
  by (simp add: multiroute_scatter_walk.simps)

lemma scatter_group_first:
  assumes "js \<noteq> []" and "2 \<le> ratio" and "0 < fst (hd js)"
  shows "0 < length (scatter_group (ratio * fst (hd js)) js)"
proof -
  from assms(2,3) have "2 * fst (hd js) \<le> ratio * fst (hd js)"
    by (simp add: mult_right_mono)
  with assms(3) have "fst (hd js) < ratio * fst (hd js)"
    by linarith
  with assms(1) show ?thesis
    by (cases js) (simp_all add: scatter_group_def)
qed

text \<open>
  C5, as the claim states it, fails for the final group: the claim lets the walk pass it
  with probability \<open>1/n\<close>. For the final group the code draws \<open>rand() % n\<close>, which is
  never \<open>n\<close>. With the single group of the costs 10 and 15 (\<open>multi_ratio\<close> 2) and a
  \<open>from\<close> that is no next hop, both residues of \<open>rand()\<close> modulo 2 pick a winner.
\<close>

theorem scatter_final_group_always_wins:
  "multiroute_scatter_walk 2 (- 1) (rand_const 0) 0 [(10, 1), (15, 2)] = Inr (Some 1, 1)
   \<and> multiroute_scatter_walk 2 (- 1) (rand_const 1) 0 [(10, 1), (15, 2)] = Inr (Some 2, 1)"
  by (simp add: multiroute_scatter_walk.simps int_range_def scatter_group_def rand_const_def
      Let_def)

text \<open>
  C5, amended. One round of the walk, at a group of \<open>n \<ge> 1\<close> members (the entries from the
  position on whose cost is below \<open>multi_ratio\<close> times the first cost; there is at least
  one when that cost is positive, see \<open>scatter_group_first\<close>), the product being in the range
  of \<open>int\<close>. If entries remain behind the group, the round draws \<open>r = rand() % (n + 1)\<close>:
  for \<open>r = n\<close>, one residue of \<open>n + 1\<close>, it goes on with the next group; for \<open>r < n\<close> the
  member of index \<open>r\<close> is the winner. If the group is the final one, the round draws
  \<open>r = rand() % n\<close>, which always is the index of a member, the winner: the draw never
  passes the final group. A winner equal to \<open>from\<close> makes the walk go on behind the group,
  which after the final group is the result \<open>false\<close>; any other winner is returned.
\<close>

theorem multiroute_scatter_round:
  assumes "js \<noteq> []" and "int_range (ratio * fst (hd js))"
    and "n = length (scatter_group (ratio * fst (hd js)) js)" and "0 < n"
  shows "(drop n js \<noteq> [] \<and> rnd pos mod (n + 1) = n \<longrightarrow>
            multiroute_scatter_walk ratio frm rnd pos js
              = multiroute_scatter_walk ratio frm rnd (Suc pos) (drop n js))
    \<and> (drop n js \<noteq> [] \<and> rnd pos mod (n + 1) < n \<longrightarrow>
            multiroute_scatter_walk ratio frm rnd pos js
              = (if snd (scatter_group (ratio * fst (hd js)) js ! (rnd pos mod (n + 1))) = frm
                 then multiroute_scatter_walk ratio frm rnd (Suc pos) (drop n js)
                 else Inr (Some (snd (scatter_group (ratio * fst (hd js)) js
                                        ! (rnd pos mod (n + 1)))), Suc pos)))
    \<and> (drop n js = [] \<longrightarrow>
            rnd pos mod n < n
            \<and> multiroute_scatter_walk ratio frm rnd pos js
              = (if snd (scatter_group (ratio * fst (hd js)) js ! (rnd pos mod n)) = frm
                 then Inr (None, Suc pos)
                 else Inr (Some (snd (scatter_group (ratio * fst (hd js)) js
                                        ! (rnd pos mod n))), Suc pos)))"
proof -
  note round = scatter_walk_round [OF assms(1,2,3), of frm rnd pos]
  have member: "scatter_group (ratio * fst (hd js)) js ! r = js ! r" if "r < n" for r
    using that assms(3) by (simp add: scatter_group_def takeWhile_nth)
  have a: "multiroute_scatter_walk ratio frm rnd pos js
              = multiroute_scatter_walk ratio frm rnd (Suc pos) (drop n js)"
    if "drop n js \<noteq> []" and "rnd pos mod (n + 1) = n"
    using that assms(4) round by (simp add: Let_def)
  have b: "multiroute_scatter_walk ratio frm rnd pos js
              = (if snd (scatter_group (ratio * fst (hd js)) js ! (rnd pos mod (n + 1))) = frm
                 then multiroute_scatter_walk ratio frm rnd (Suc pos) (drop n js)
                 else Inr (Some (snd (scatter_group (ratio * fst (hd js)) js
                                        ! (rnd pos mod (n + 1)))), Suc pos))"
    if "drop n js \<noteq> []" and "rnd pos mod (n + 1) < n"
    using that round member [OF that(2)] by (simp add: Let_def)
  have c: "rnd pos mod n < n
            \<and> multiroute_scatter_walk ratio frm rnd pos js
              = (if snd (scatter_group (ratio * fst (hd js)) js ! (rnd pos mod n)) = frm
                 then Inr (None, Suc pos)
                 else Inr (Some (snd (scatter_group (ratio * fst (hd js)) js
                                        ! (rnd pos mod n))), Suc pos))"
    if "drop n js = []"
  proof -
    have lt: "rnd pos mod n < n" using assms(4) by simp
    with that round member [OF lt] show ?thesis by (simp add: Let_def scatter_walk_end)
  qed
  from a b c show ?thesis by blast
qed


theorem multiroute_scatter_round_witness:
  "[(10, 1), (15, 2), (30, 3)] \<noteq> ([] :: (int \<times> int) list)
   \<and> int_range (2 * fst (hd [(10 :: int, 1 :: int), (15, 2), (30, 3)]))
   \<and> 2 = length (scatter_group (2 * fst (hd [(10, 1), (15, 2), (30, 3)]))
                  [(10, 1), (15, 2), (30, 3)])
   \<and> multiroute_scatter_walk 2 (- 1) (rand_const 2) 0 [(10, 1), (15, 2), (30, 3)]
       = multiroute_scatter_walk 2 (- 1) (rand_const 2) 1 [(30, 3)]
   \<and> multiroute_scatter_walk 2 (- 1) (rand_const 1) 0 [(10, 1), (15, 2), (30, 3)]
       = Inr (Some 2, 1)
   \<and> multiroute_scatter_walk 2 2 (rand_const 1) 0 [(10, 1), (15, 2), (30, 3)]
       = multiroute_scatter_walk 2 2 (rand_const 1) 1 [(30, 3)]
   \<and> multiroute_scatter_walk 2 (- 1) (rand_const 2) 1 [(30, 3)] = Inr (Some 3, 2)
   \<and> multiroute_scatter_walk 2 3 (rand_const 2) 1 [(30, 3)] = Inr (None, 2)"
proof -
  have js: "[(10, 1), (15, 2), (30, 3)] \<noteq> ([] :: (int \<times> int) list)"
    and rng: "int_range (2 * fst (hd [(10 :: int, 1 :: int), (15, 2), (30, 3)]))"
    and n: "2 = length (scatter_group (2 * fst (hd [(10, 1), (15, 2), (30, 3)]))
                  [(10, 1), (15, 2), (30, 3)])"
    and pos: "0 < (2 :: nat)"
    by (simp_all add: int_range_def scatter_group_def)
  have js1: "[(30, 3)] \<noteq> ([] :: (int \<times> int) list)"
    and rng1: "int_range (2 * fst (hd [(30 :: int, 3 :: int)]))"
    and n1: "1 = length (scatter_group (2 * fst (hd [(30, 3)])) [(30, 3)])"
    and pos1: "0 < (1 :: nat)"
    by (simp_all add: int_range_def scatter_group_def)
  from multiroute_scatter_round [OF js rng n pos, of "rand_const 2" 0 "- 1"]
    multiroute_scatter_round [OF js rng n pos, of "rand_const 1" 0 "- 1"]
    multiroute_scatter_round [OF js rng n pos, of "rand_const 1" 0 2]
    multiroute_scatter_round [OF js1 rng1 n1 pos1, of "rand_const 2" 1 "- 1"]
    multiroute_scatter_round [OF js1 rng1 n1 pos1, of "rand_const 2" 1 3]
  show ?thesis
    using js rng n by (simp add: rand_const_def scatter_group_def)
qed

end
